theory Spec2Isabelle
  imports Complex_Main "HOL-Library.Word"
begin

section \<open>Bytes, unsigned 32-bit arithmetic and raw memory\<close>

text \<open>
  The program is \<^verbatim>\<open>lrtm_count_distinct.c\<close>, a PostgreSQL aggregate that keeps the distinct
  fixed-width values of a group in a flat byte array: a sorted, duplicate-free prefix followed
  by an unsorted suffix of recently appended values.

  Conventions of the embedding:
  \<^item> the four \<^verbatim>\<open>uint32\<close> fields of the struct are natural numbers; every \<^verbatim>\<open>uint32\<close>
    operation of the source that can wrap is written with \<open>u32\<close> (reduction modulo \<open>2^32\<close>);
  \<^item> a pointer into a buffer is the byte offset from the buffer's start;
  \<^item> the field \<open>data\<close> holds the bytes of the buffer that have been written so far (its
    initialised part, stale bytes included); \<open>nbytes\<close> is the allocated size, so the bytes
    from \<open>length data\<close> up to \<open>nbytes\<close> are allocated but indeterminate;
  \<^item> errors are values: \<open>Elog\<close> is \<^verbatim>\<open>elog(ERROR, ...)\<close>, \<open>Assert_failed\<close> is a failed
    \<^verbatim>\<open>Assert\<close> (only in builds with \<^verbatim>\<open>USE_ASSERT_CHECKING\<close>), and \<open>Undefined_behaviour\<close>
    stands for the executions C leaves undefined: a read of bytes that were never written or
    lie outside the object, a write outside the allocation, a division by zero, a loop that
    runs past its end pointers, a conversion out of range;
  \<^item> the \<^verbatim>\<open>double\<close> computations of the growth policy are modelled by exact rational
    arithmetic. Their operands are 32-bit integers, the quotients are compared with constants
    that are at least \<open>2^-35\<close> away from every other quotient of such operands, and the single
    truncation lands at least a quarter away from the next integer, so the correctly rounded
    IEEE results decide and truncate the same way as the exact values;
  \<^item> \<^verbatim>\<open>Assert\<close> is compiled out in production builds; except in the deserialisation
    function, where the difference is the subject of a claim, the model is that of a
    production build;
  \<^item> memory: running out of memory is not modelled. PostgreSQL's allocator refuses a request
    of more than \<open>MaxAllocSize\<close> bytes with an error. That refusal is modelled where the
    program asks for more than the buffers it holds: at the \<^verbatim>\<open>repalloc\<close> of the growth step
    and at the buffer of the combine function. The other requests (the merge buffer of
    \<open>nbytes\<close> bytes, the payload, the items of a deserialised payload, the \<^verbatim>\<open>Datum\<close>
    array) are taken to be granted.
\<close>

type_synonym byte = "8 word"

definition u32 :: "nat \<Rightarrow> nat" where
  "u32 x = x mod 2 ^ 32"

definition u32_sub :: "nat \<Rightarrow> nat \<Rightarrow> nat" where
  \<comment> \<open>\<^verbatim>\<open>a - b\<close> on \<^verbatim>\<open>uint32\<close>\<close>
  "u32_sub a b = (u32 a + 2 ^ 32 - u32 b) mod 2 ^ 32"

datatype error = Elog string | Assert_failed | Undefined_behaviour

definition MaxAllocSize :: nat where
  \<comment> \<open>PostgreSQL's \<^verbatim>\<open>MaxAllocSize\<close> (\<^verbatim>\<open>0x3fffffff\<close>): \<^verbatim>\<open>palloc\<close>, \<^verbatim>\<open>MemoryContextAlloc\<close> and
      \<^verbatim>\<open>repalloc\<close> hand out no larger buffer\<close>
  "MaxAllocSize = 1073741823"

definition alloc_refused :: error where
  \<comment> \<open>the \<^verbatim>\<open>elog(ERROR, ...)\<close> of the allocator for a request above \<open>MaxAllocSize\<close> (the
      message goes on with the size asked for)\<close>
  "alloc_refused = Elog ''invalid memory alloc request size''"

definition repalloc :: "byte list \<Rightarrow> nat \<Rightarrow> error + byte list" where
  \<comment> \<open>PostgreSQL's \<^verbatim>\<open>repalloc(pointer, size)\<close>, which is not part of the source file: a
      request above \<open>MaxAllocSize\<close> raises an error; otherwise the block has the new size
      and its content up to the smaller of the old and the new size.\<close>
  "repalloc d n = (if MaxAllocSize < n then Inl alloc_refused else Inr (take n d))"

fun memcmp :: "byte list \<Rightarrow> byte list \<Rightarrow> int" where
  \<comment> \<open>\<^verbatim>\<open>memcmp(a, b, n)\<close> on two blocks of \<open>n\<close> bytes, compared as unsigned chars; only the
      sign of the result is specified in C, and only the sign is used by the program\<close>
  "memcmp [] ys = 0"
| "memcmp (x # xs) [] = 0"
| "memcmp (x # xs) (y # ys) = (if x < y then - 1 else if y < x then 1 else memcmp xs ys)"

definition item_at :: "byte list \<Rightarrow> nat \<Rightarrow> nat \<Rightarrow> byte list" where
  \<comment> \<open>the \<open>sz\<close> bytes at offset \<open>off\<close>\<close>
  "item_at d off sz = take sz (drop off d)"

definition read_item :: "byte list \<Rightarrow> nat \<Rightarrow> nat \<Rightarrow> byte list option" where
  \<comment> \<open>the same, \<open>None\<close> when some of the bytes were never written\<close>
  "read_item d off sz = (if off + sz \<le> length d then Some (item_at d off sz) else None)"

definition memcpy :: "byte list \<Rightarrow> nat \<Rightarrow> byte list \<Rightarrow> byte list" where
  \<comment> \<open>\<^verbatim>\<open>memcpy(dst + off, src, length src)\<close>\<close>
  "memcpy dst off src = take off dst @ src @ drop (off + length src) dst"

section \<open>The element set\<close>

text \<open>
  \<^verbatim>\<open>element_set_t\<close>. The fields in front of \<open>data\<close> are what \<^verbatim>\<open>offsetof(element_set_t, data)\<close>
  covers: the four counters, \<open>typalign\<close>, the alignment gap after it (\<open>pad\<close>, whose content
  nothing ever assigns) and the pointer \<open>aggctx\<close>, kept as its object representation.
\<close>

record element_set_t =
  item_size :: nat
  nsorted :: nat
  nall :: nat
  nbytes :: nat
  typalign :: byte
  pad :: "byte list"
  aggctx :: "byte list"
  data :: "byte list"

definition ARRAY_INIT_SIZE :: nat where
  "ARRAY_INIT_SIZE = 32"

definition ARRAY_FREE_FRACT :: rat where
  "ARRAY_FREE_FRACT = 2 / 10"

definition init_set :: "element_set_t \<Rightarrow> nat \<Rightarrow> byte \<Rightarrow> byte list \<Rightarrow> element_set_t" where
  \<comment> \<open>\<open>raw\<close> is the content of the freshly allocated struct\<close>
  "init_set raw isz ta ctx =
     raw\<lparr>item_size := u32 isz, typalign := ta, nsorted := 0, nall := 0,
         nbytes := ARRAY_INIT_SIZE, aggctx := ctx, data := []\<rparr>"

section \<open>Compaction\<close>

definition compare_items :: "byte list \<Rightarrow> byte list \<Rightarrow> int" where
  "compare_items a b = memcmp a b"

fun insert_item :: "byte list \<Rightarrow> byte list list \<Rightarrow> byte list list" where
  "insert_item x [] = [x]"
| "insert_item x (y # ys) =
     (if compare_items x y \<le> 0 then x # y # ys else y # insert_item x ys)"

definition sort_items :: "byte list list \<Rightarrow> byte list list" where
  "sort_items xs = foldr insert_item xs []"

fun items_of :: "byte list \<Rightarrow> nat \<Rightarrow> nat \<Rightarrow> nat \<Rightarrow> byte list list" where
  \<comment> \<open>the \<open>n\<close> items of \<open>sz\<close> bytes that start at offset \<open>base\<close>\<close>
  "items_of d base n sz =
     (if n = 0 then [] else item_at d base sz # items_of d (base + sz) (n - 1) sz)"

declare items_of.simps [simp del]

definition qsort_arg :: "byte list \<Rightarrow> nat \<Rightarrow> nat \<Rightarrow> nat \<Rightarrow> byte list" where
  \<comment> \<open>Modelled from the spec: \<^verbatim>\<open>qsort_arg\<close> is PostgreSQL's, not part of the source file; it
      "sorts the suffix region in place by byte-wise comparison of whole elements". The order
      \<^verbatim>\<open>compare_items\<close> is total on blocks of one size, so the sorted arrangement is unique
      and an insertion sort computes it.\<close>
  "qsort_arg d base n sz = memcpy d base (concat (sort_items (items_of d base n sz)))"

function dedup_loop ::
  "nat \<Rightarrow> nat \<Rightarrow> nat \<Rightarrow> nat \<Rightarrow> nat \<Rightarrow> nat \<Rightarrow> byte list \<Rightarrow> nat \<times> byte list" where
  \<comment> \<open>the \<^verbatim>\<open>for (i = 1; i < nall - nsorted; i++)\<close> loop of \<^verbatim>\<open>compact_set\<close>;
      \<open>lst\<close> is the pointer \<^verbatim>\<open>last\<close>\<close>
  "dedup_loop sz base n i lst cnt d =
     (if i < n then
        (let curr = base + u32 (i * sz) in
         if memcmp (item_at d lst sz) (item_at d curr sz) \<noteq> 0 then
           (let lst' = lst + sz; cnt' = cnt + 1 in
            dedup_loop sz base n (i + 1) lst' cnt'
              (if lst' \<noteq> curr then memcpy d lst' (item_at d curr sz) else d))
         else dedup_loop sz base n (i + 1) lst cnt d)
      else (cnt, d))"
  by pat_completeness auto
termination
  by (relation "measure (\<lambda>(sz, base, n, i, lst, cnt, d). n - i)") auto

declare dedup_loop.simps [simp del]

function merge_loop ::
  "nat \<Rightarrow> byte list \<Rightarrow> nat \<Rightarrow> nat \<Rightarrow> nat \<Rightarrow> nat \<Rightarrow> byte list \<Rightarrow> byte list option" where
  \<comment> \<open>the \<^verbatim>\<open>while (true)\<close> merge of \<^verbatim>\<open>compact_set\<close>; \<open>out\<close> is what has been written to the
      new buffer (\<^verbatim>\<open>ptr - data\<close> bytes). The loop leaves only when a pointer is equal to its end
      pointer: with items of size 0, or once a pointer has stepped over its end, it does not
      return, which is the value \<open>None\<close>.\<close>
  "merge_loop sz d a a_max b b_max out =
     (let r = memcmp (item_at d a sz) (item_at d b sz);
          (a', b', out') =
             (if r = 0 then (a + sz, b + sz, out @ item_at d a sz)
              else if r < 0 then (a + sz, b, out @ item_at d a sz)
              else (a, b + sz, out @ item_at d b sz))
      in if a' = a_max \<or> b' = b_max then
           Some (if a' \<noteq> a_max then out' @ item_at d a' (a_max - a')
                 else if b' \<noteq> b_max then out' @ item_at d b' (b_max - b')
                 else out')
         else if sz = 0 \<or> a_max < a' \<or> b_max < b' then None
         else merge_loop sz d a' a_max b' b_max out')"
  by pat_completeness auto
termination
  by (relation "measure (\<lambda>(sz, d, a, a_max, b, b_max, out). (a_max - a) + (b_max - b))")
     (auto split: if_splits prod.splits)

declare merge_loop.simps [simp del]

definition sort_suffix :: "element_set_t \<Rightarrow> element_set_t" where
  \<comment> \<open>the first half of the body of \<^verbatim>\<open>if (eset->nall > eset->nsorted)\<close> in \<^verbatim>\<open>compact_set\<close>:
      sort the suffix, drop its adjacent duplicates, update the counters\<close>
  "sort_suffix eset =
     (let sz = item_size eset;
          base = u32 (nsorted eset * sz);
          n = u32_sub (nall eset) (nsorted eset);
          r = dedup_loop sz base n 1 base 1 (qsort_arg (data eset) base n sz);
          eset' = eset\<lparr>data := snd r, nall := u32 (nsorted eset + fst r)\<rparr>
      in if nsorted eset' = 0 then eset'\<lparr>nsorted := nall eset'\<rparr> else eset')"

definition merge_prefix :: "element_set_t \<Rightarrow> error + element_set_t" where
  \<comment> \<open>the body of \<^verbatim>\<open>if (eset->nsorted < eset->nall)\<close>: merge prefix and suffix into a new
      buffer of \<open>nbytes\<close> bytes, which replaces the old one\<close>
  "merge_prefix eset =
     (let sz = item_size eset in
      case merge_loop sz (data eset) 0 (u32 (nsorted eset * sz))
             (u32 (nsorted eset * sz)) (u32 (nall eset * sz)) [] of
        None \<Rightarrow> Inl Undefined_behaviour
      | Some out \<Rightarrow>
          if nbytes eset < length out then Inl Undefined_behaviour
          else Inr (eset\<lparr>nsorted := u32 (length out div sz),
                         nall := u32 (length out div sz), data := out\<rparr>))"

definition compact_core :: "element_set_t \<Rightarrow> error + element_set_t" where
  \<comment> \<open>\<^verbatim>\<open>compact_set\<close> up to the growth step\<close>
  "compact_core eset =
     (if nsorted eset < nall eset then
        (let eset' = sort_suffix eset in
         if nsorted eset' < nall eset' then merge_prefix eset' else Inr eset')
      else Inr eset)"

definition free_fract :: "element_set_t \<Rightarrow> rat option" where
  \<comment> \<open>\<^verbatim>\<open>(nbytes - nall * item_size) * 1.0 / nbytes\<close>; with \<open>nbytes = 0\<close> the quotient is a NaN
      or an infinity, here \<open>None\<close>, and no comparison \<open>< 0.2\<close> with it holds\<close>
  "free_fract eset =
     (if nbytes eset = 0 then None
      else Some (of_nat (u32_sub (nbytes eset) (u32 (nall eset * item_size eset)))
                   / of_nat (nbytes eset)))"

definition low_free :: "element_set_t \<Rightarrow> bool" where
  \<comment> \<open>\<^verbatim>\<open>free_fract < ARRAY_FREE_FRACT\<close>\<close>
  "low_free eset = (case free_fract eset of None \<Rightarrow> False | Some f \<Rightarrow> f < ARRAY_FREE_FRACT)"

definition grow_set :: "nat \<Rightarrow> element_set_t \<Rightarrow> bool \<Rightarrow> error + element_set_t" where
  \<comment> \<open>the tail of \<^verbatim>\<open>compact_set\<close>; \<open>thr\<close> is \<^verbatim>\<open>ALLOCSET_SEPARATE_THRESHOLD\<close>, a constant of
      PostgreSQL's \<^verbatim>\<open>memutils.h\<close> (8192 there). The new size \<open>nb\<close> is assigned to \<open>nbytes\<close>
      and then asked of \<^verbatim>\<open>repalloc\<close>, whose error ends the call.\<close>
  "grow_set thr eset need_space =
     (if need_space \<and> low_free eset then
        (if (of_nat (nbytes eset) :: rat) / (8 / 10) < of_nat thr
         then
           (let nb = u32 (nbytes eset * 2) in
            case repalloc (data eset) nb of
              Inl e \<Rightarrow> Inl e
            | Inr d \<Rightarrow> Inr (eset\<lparr>nbytes := nb, data := d\<rparr>))
         else
           (let nb = nat \<lfloor>(of_nat (nbytes eset) :: rat) / (8 / 10)\<rfloor> in
            if 2 ^ 32 \<le> nb then Inl Undefined_behaviour
            else
              (case repalloc (data eset) nb of
                 Inl e \<Rightarrow> Inl e
               | Inr d \<Rightarrow> Inr (eset\<lparr>nbytes := nb, data := d\<rparr>))))
      else Inr eset)"

definition compact_set :: "nat \<Rightarrow> element_set_t \<Rightarrow> bool \<Rightarrow> error + element_set_t" where
  "compact_set thr eset need_space =
     (case compact_core eset of
        Inl e \<Rightarrow> Inl e
      | Inr eset' \<Rightarrow> grow_set thr eset' need_space)"

definition add_element :: "nat \<Rightarrow> element_set_t \<Rightarrow> byte list \<Rightarrow> error + element_set_t" where
  \<comment> \<open>\<open>val\<close> is the \<^verbatim>\<open>Datum\<close> whose first \<open>item_size\<close> bytes are stored. Undefined: a read
      past the \<^verbatim>\<open>Datum\<close> and a store past the allocation; a store above unwritten bytes has
      no representation in \<open>data\<close> and is counted with them (it does not arise when the
      items of the set are written bytes).\<close>
  "add_element thr eset val =
     (case (if nbytes eset < u32 (item_size eset * u32 (nall eset + 1))
            then compact_set thr eset True else Inr eset) of
        Inl e \<Rightarrow> Inl e
      | Inr eset' \<Rightarrow>
          (let off = u32 (item_size eset' * nall eset') in
           if length val < item_size eset' \<or> nbytes eset' < off + item_size eset'
              \<or> length (data eset') < off
           then Inl Undefined_behaviour
           else Inr (eset'\<lparr>data := memcpy (data eset') off (take (item_size eset') val),
                           nall := u32 (nall eset' + 1)\<rparr>)))"

section \<open>Transition functions\<close>

text \<open>
  \<^verbatim>\<open>get_typlenbyvalalign\<close> is PostgreSQL's type catalogue: its answer for the element type is
  the argument \<open>tinfo\<close>. \<^verbatim>\<open>AggCheckCallContext\<close> is the argument \<open>aggcontext\<close>: \<open>None\<close> when the
  function is not called as part of an aggregate. An argument that is SQL NULL is \<open>None\<close>.
\<close>

record typinfo =
  typlen :: int
  typbyval :: bool
  typalign_of :: byte

definition new_set ::
  "element_set_t \<Rightarrow> typinfo \<Rightarrow> byte list \<Rightarrow> string \<Rightarrow> error + element_set_t" where
  \<comment> \<open>the block "init the hash table, if needed" of both transition functions\<close>
  "new_set raw tinfo ctx msg =
     (if typlen tinfo < 0 \<or> \<not> typbyval tinfo then Inl (Elog msg)
      else Inr (init_set raw (nat (typlen tinfo)) (typalign_of tinfo) ctx))"

definition lrtm_count_distinct_append ::
  "nat \<Rightarrow> byte list option \<Rightarrow> element_set_t \<Rightarrow> typinfo \<Rightarrow>
   element_set_t option \<Rightarrow> byte list option \<Rightarrow> error + element_set_t option" where
  "lrtm_count_distinct_append thr aggcontext raw tinfo state element =
     (case element of
        None \<Rightarrow> Inr state
      | Some val \<Rightarrow>
          (case aggcontext of
             None \<Rightarrow> Inl (Elog ''lrtm_count_distinct_append called in non-aggregate context'')
           | Some ctx \<Rightarrow>
               (case (case state of
                        None \<Rightarrow> new_set raw tinfo ctx
                          ''lrtm_count_distinct handles only fixed-length types passed by value''
                      | Some s \<Rightarrow> Inr s) of
                  Inl e \<Rightarrow> Inl e
                | Inr eset \<Rightarrow>
                    (case add_element thr eset val of
                       Inl e \<Rightarrow> Inl e
                     | Inr eset' \<Rightarrow> Inr (Some eset')))))"

text \<open>
  An array argument: the number of items, the null bitmap (absent when the array has no
  nulls) and the \<^verbatim>\<open>Datum\<close>s that \<^verbatim>\<open>fetch_att\<close> reads at the successive aligned positions of the
  data area, which holds the non-null items only. Walking the data area
  (\<^verbatim>\<open>att_addlength_pointer\<close>, \<^verbatim>\<open>att_align_nominal\<close>) is PostgreSQL's and is the list structure here.
\<close>

record array_t =
  nitems :: nat
  null_bitmap :: "byte list option"
  arr_data :: "byte list list"

definition is_null_item :: "byte list option \<Rightarrow> nat \<Rightarrow> bool option" where
  \<comment> \<open>\<^verbatim>\<open>null_bitmap && !(null_bitmap[i / 8] & (1 << (i % 8)))\<close>; \<open>None\<close> when the bitmap has
      no byte \<open>i / 8\<close>\<close>
  "is_null_item bm i =
     (case bm of
        None \<Rightarrow> Some False
      | Some bs \<Rightarrow> if i div 8 < length bs then Some (\<not> bit (bs ! (i div 8)) (i mod 8)) else None)"

function elements_loop ::
  "nat \<Rightarrow> byte list \<Rightarrow> element_set_t \<Rightarrow> typinfo \<Rightarrow> element_set_t option \<Rightarrow> array_t \<Rightarrow>
   nat \<Rightarrow> element_set_t option \<Rightarrow> byte list list \<Rightarrow> error + element_set_t option" where
  \<comment> \<open>the \<^verbatim>\<open>for (i = 0; i < nitems; i++)\<close> loop; \<open>eset\<close> is the local variable of that name
      and \<open>rest\<close> what is left of the data area\<close>
  "elements_loop thr ctx raw tinfo state input i eset rest =
     (if i < nitems input then
        (case is_null_item (null_bitmap input) i of
           None \<Rightarrow> Inl Undefined_behaviour
         | Some True \<Rightarrow> elements_loop thr ctx raw tinfo state input (i + 1) eset rest
         | Some False \<Rightarrow>
           (case (case eset of
                    Some s \<Rightarrow> Inr s
                  | None \<Rightarrow>
                      (case state of
                         None \<Rightarrow> new_set raw tinfo ctx
                           ''lrtm_count_distinct_elements handles only arrays of fixed-length types passed by value''
                       | Some s \<Rightarrow> Inr s)) of
              Inl e \<Rightarrow> Inl e
            | Inr s \<Rightarrow>
                (case rest of
                   [] \<Rightarrow> Inl Undefined_behaviour
                 | element # rest' \<Rightarrow>
                     (case add_element thr s element of
                        Inl e \<Rightarrow> Inl e
                      | Inr s' \<Rightarrow>
                          elements_loop thr ctx raw tinfo state input (i + 1) (Some s') rest'))))
      else Inr eset)"
  by pat_completeness auto
termination
  by (relation "measure (\<lambda>(thr, ctx, raw, tinfo, state, input, i, eset, rest). nitems input - i)")
     auto

declare elements_loop.simps [simp del]

definition lrtm_count_distinct_elements_append ::
  "nat \<Rightarrow> byte list option \<Rightarrow> element_set_t \<Rightarrow> typinfo \<Rightarrow>
   element_set_t option \<Rightarrow> array_t option \<Rightarrow> error + element_set_t option" where
  "lrtm_count_distinct_elements_append thr aggcontext raw tinfo state arg =
     (case arg of
        None \<Rightarrow> Inr state
      | Some input \<Rightarrow>
          (case aggcontext of
             None \<Rightarrow>
               Inl (Elog ''lrtm_count_distinct_elements_append called in non-aggregate context'')
           | Some ctx \<Rightarrow>
               elements_loop thr ctx raw tinfo state input 0 None (arr_data input)))"

section \<open>Serialisation\<close>

text \<open>
  \<^verbatim>\<open>offsetof(element_set_t, data)\<close> and the object representation of the fields in front of
  \<open>data\<close>, for the LP64 little-endian targets PostgreSQL runs on: four \<^verbatim>\<open>uint32\<close>, one
  \<^verbatim>\<open>char\<close>, seven bytes of alignment and an eight-byte pointer. The payload of a \<^verbatim>\<open>bytea\<close> is
  a byte list; its length word (\<^verbatim>\<open>VARHDRSZ\<close>) belongs to the transport.
\<close>

definition hlen :: nat where
  "hlen = 32"

definition le32 :: "nat \<Rightarrow> byte list" where
  "le32 x = [of_nat (x mod 256), of_nat (x div 256 mod 256),
             of_nat (x div 65536 mod 256), of_nat (x div 16777216 mod 256)]"

definition le32_nat :: "byte list \<Rightarrow> nat" where
  "le32_nat bs = (case bs of
       [b0, b1, b2, b3] \<Rightarrow> unat b0 + 256 * unat b1 + 65536 * unat b2 + 16777216 * unat b3
     | _ \<Rightarrow> 0)"

definition hdr_field :: "byte list \<Rightarrow> nat \<Rightarrow> nat" where
  \<comment> \<open>the \<open>k\<close>-th \<^verbatim>\<open>uint32\<close> of a serialised header\<close>
  "hdr_field state k = le32_nat (take 4 (drop (4 * k) state))"

definition struct_header :: "element_set_t \<Rightarrow> byte list" where
  "struct_header eset =
     le32 (item_size eset) @ le32 (nsorted eset) @ le32 (nall eset) @ le32 (nbytes eset)
       @ [typalign eset] @ pad eset @ aggctx eset"

definition lrtm_count_distinct_serial ::
  "nat \<Rightarrow> bool \<Rightarrow> element_set_t \<Rightarrow> error + element_set_t \<times> byte list" where
  \<comment> \<open>returns the set as the call leaves it, and the payload\<close>
  "lrtm_count_distinct_serial thr in_agg eset =
     (if \<not> in_agg then Inl (Elog ''lrtm_count_distinct_serial called in non-aggregate context'')
      else
        (case compact_set thr eset False of
           Inl e \<Rightarrow> Inl e
         | Inr s \<Rightarrow>
             (let dlen = u32 (nall s * item_size s) in
              if length (data s) < dlen then Inl Undefined_behaviour
              else Inr (s, take hlen (struct_header s) @ take dlen (data s)))))"

definition lrtm_count_distinct_deserial ::
  "bool \<Rightarrow> bool \<Rightarrow> element_set_t \<Rightarrow> byte list \<Rightarrow> error + element_set_t" where
  \<comment> \<open>\<open>use_assert_checking\<close> is the build option \<^verbatim>\<open>USE_ASSERT_CHECKING\<close>; \<open>raw\<close> is the content
      of the freshly allocated struct; \<open>len\<close> is a \<^verbatim>\<open>Size\<close> (64 bits)\<close>
  "lrtm_count_distinct_deserial use_assert_checking in_agg raw state =
     (let len = length state in
      if \<not> in_agg then Inl (Elog ''lrtm_count_distinct_deserial called in non-aggregate context'')
      else if use_assert_checking \<and> \<not> 0 < len then Inl Assert_failed
      else if use_assert_checking \<and> \<not> 0 < (len + 2 ^ 64 - hlen) mod 2 ^ 64 then Inl Assert_failed
      else if len < hlen then Inl Undefined_behaviour
      else
        (let eset = raw\<lparr>item_size := hdr_field state 0,
                        nsorted := hdr_field state 1,
                        nall := hdr_field state 2,
                        nbytes := hdr_field state 3,
                        typalign := state ! 16,
                        pad := take 7 (drop 17 state),
                        aggctx := take 8 (drop 24 state)\<rparr>;
             n = u32 (nall eset * item_size eset)
         in if use_assert_checking \<and> \<not> (0 < nall eset \<and> nall eset = nsorted eset)
            then Inl Assert_failed
            else if use_assert_checking \<and> len \<noteq> hlen + n then Inl Assert_failed
            else if len < hlen + n then Inl Undefined_behaviour
            else Inr (eset\<lparr>data := take n (drop hlen state), nbytes := n\<rparr>)))"

section \<open>Combining two partial states\<close>

definition pick_element ::
  "element_set_t \<Rightarrow> element_set_t \<Rightarrow> nat \<Rightarrow> nat \<Rightarrow> error + byte list \<times> nat \<times> nat" where
  \<comment> \<open>the choice of \<^verbatim>\<open>element\<close> in one round of the merge loop of the combine function: the
      item chosen and the two pointers after the round\<close>
  "pick_element eset1 eset2 ptr1 ptr2 =
     (if ptr1 < nbytes eset1 \<and> ptr2 < nbytes eset2 then
        (case (read_item (data eset1) ptr1 (item_size eset1),
               read_item (data eset2) ptr2 (item_size eset1)) of
           (Some x, Some y) \<Rightarrow>
             if memcmp x y \<le> 0 then Inr (x, ptr1 + item_size eset1, ptr2)
             else Inr (y, ptr1, ptr2 + item_size eset1)
         | _ \<Rightarrow> Inl Undefined_behaviour)
      else if ptr1 < nbytes eset1 then
        (case read_item (data eset1) ptr1 (item_size eset1) of
           Some x \<Rightarrow> Inr (x, ptr1 + item_size eset1, ptr2)
         | None \<Rightarrow> Inl Undefined_behaviour)
      else if ptr2 < nbytes eset2 then
        (case read_item (data eset2) ptr2 (item_size eset1) of
           Some y \<Rightarrow> Inr (y, ptr1, ptr2 + item_size eset2)
         | None \<Rightarrow> Inl Undefined_behaviour)
      else Inl (Elog ''unexpected''))"

function combine_loop ::
  "nat \<Rightarrow> nat \<Rightarrow> element_set_t \<Rightarrow> element_set_t \<Rightarrow> nat \<Rightarrow> nat \<Rightarrow> byte list \<Rightarrow>
   error + nat \<times> nat \<times> byte list" where
  \<comment> \<open>\<^verbatim>\<open>for (i = 0; i < eset1->nall + eset2->nall; i++)\<close>, \<open>n\<close> being the bound; \<open>out\<close> is
      what has been written to the new buffer, so \<^verbatim>\<open>tmp == data\<close> is \<open>out = []\<close> and \<^verbatim>\<open>prev\<close>
      is the last item of \<open>out\<close>\<close>
  "combine_loop i n eset1 eset2 ptr1 ptr2 out =
     (if i < n then
        (case pick_element eset1 eset2 ptr1 ptr2 of
           Inl e \<Rightarrow> Inl e
         | Inr (element, ptr1', ptr2') \<Rightarrow>
             if out = [] then
               (if u32 (nbytes eset1 + nbytes eset2) < length out + item_size eset1
                then Inl Undefined_behaviour
                else combine_loop (i + 1) n eset1 eset2 ptr1' ptr2' (out @ element))
             else if memcmp (item_at out (length out - item_size eset1) (item_size eset1))
                       element \<noteq> 0 then
               (if u32 (nbytes eset1 + nbytes eset2) < length out + item_size eset1
                then Inl Undefined_behaviour
                else combine_loop (i + 1) n eset1 eset2 ptr1' ptr2' (out @ element))
             else combine_loop (i + 1) n eset1 eset2 ptr1' ptr2' out)
      else Inr (ptr1, ptr2, out))"
  by pat_completeness auto
termination
  by (relation "measure (\<lambda>(i, n, eset1, eset2, ptr1, ptr2, out). n - i)") auto

declare combine_loop.simps [simp del]

text \<open>
  The combine function ends in \<^verbatim>\<open>PG_RETURN_POINTER\<close> on every path: the \<^verbatim>\<open>Datum\<close> it returns
  is never SQL NULL, and holds either the \<^verbatim>\<open>NULL\<close> pointer or a pointer to a set. Its local
  pointers \<^verbatim>\<open>eset1\<close> and \<^verbatim>\<open>eset2\<close> are \<^verbatim>\<open>NULL\<close> for an argument that is SQL NULL; they are the
  arguments \<open>arg1\<close> and \<open>arg2\<close> here, \<open>None\<close> being \<^verbatim>\<open>NULL\<close>.
\<close>

datatype 'a pointer = Null_pointer | Pointer 'a

definition lrtm_count_distinct_combine ::
  "nat \<Rightarrow> byte list option \<Rightarrow> element_set_t \<Rightarrow> element_set_t option \<Rightarrow> element_set_t option \<Rightarrow>
   error + element_set_t pointer \<times> element_set_t option" where
  \<comment> \<open>returns the pointer held by the (non-NULL) \<^verbatim>\<open>Datum\<close> returned, and the second
      argument as the call leaves it\<close>
  "lrtm_count_distinct_combine thr aggcontext raw arg1 arg2 =
     (case aggcontext of
        None \<Rightarrow> Inl (Elog ''lrtm_count_distinct_combine called in non-aggregate context'')
      | Some agg_context \<Rightarrow>
          (case arg2 of
             None \<Rightarrow>
               Inr (case arg1 of None \<Rightarrow> Null_pointer | Some eset1 \<Rightarrow> Pointer eset1, None)
           | Some eset2 \<Rightarrow>
               (case arg1 of
                  None \<Rightarrow>
                    Inr (Pointer (raw\<lparr>item_size := item_size eset2, nsorted := nsorted eset2,
                                      nall := nall eset2, nbytes := nbytes eset2,
                                      data := take (nbytes eset2) (data eset2)\<rparr>),
                         Some eset2)
                | Some eset1 \<Rightarrow>
                    (case compact_set thr eset1 False of
                       Inl e \<Rightarrow> Inl e
                     | Inr e1 \<Rightarrow>
                         (case compact_set thr eset2 False of
                            Inl e \<Rightarrow> Inl e
                          | Inr e2 \<Rightarrow>
                              if MaxAllocSize < u32 (nbytes e1 + nbytes e2) then Inl alloc_refused
                              else
                              (case combine_loop 0 (u32 (nall e1 + nall e2)) e1 e2 0 0 [] of
                                 Inl e \<Rightarrow> Inl e
                               | Inr (ptr1, ptr2, out) \<Rightarrow>
                                   if item_size e1 = 0 then Inl Undefined_behaviour
                                   else
                                     Inr (Pointer (e1\<lparr>data := out,
                                                   nbytes := u32 (length out),
                                                   nall := u32 (length out) div item_size e1,
                                                   nsorted := u32 (length out) div item_size e1\<rparr>),
                                          Some e2)))))))"

section \<open>Final functions\<close>

definition lrtm_count_distinct ::
  "nat \<Rightarrow> bool \<Rightarrow> element_set_t option \<Rightarrow> error + element_set_t option \<times> int option" where
  \<comment> \<open>returns the state as the call leaves it, and the result: \<open>None\<close> is SQL NULL\<close>
  "lrtm_count_distinct thr in_agg state =
     (if \<not> in_agg then Inl (Elog ''lrtm_count_distinct called in non-aggregate context'')
      else
        (case state of
           None \<Rightarrow> Inr (None, None)
         | Some eset \<Rightarrow>
             (case compact_set thr eset False of
                Inl e \<Rightarrow> Inl e
              | Inr s \<Rightarrow> Inr (Some s, Some (int (nall s))))))"

definition build_array :: "nat \<Rightarrow> element_set_t \<Rightarrow> error + element_set_t \<times> byte list list" where
  \<comment> \<open>the items handed to \<^verbatim>\<open>construct_array\<close>, in order\<close>
  "build_array thr eset =
     (case compact_set thr eset False of
        Inl e \<Rightarrow> Inl e
      | Inr s \<Rightarrow>
          if length (data s) < nsorted s * item_size s then Inl Undefined_behaviour
          else Inr (s, items_of (data s) 0 (nsorted s) (item_size s)))"

definition array_agg_distinct_type_by_element ::
  "nat \<Rightarrow> bool \<Rightarrow> element_set_t option \<Rightarrow> error + element_set_t option \<times> byte list list" where
  "array_agg_distinct_type_by_element thr in_agg state =
     (if \<not> in_agg then Inl (Elog ''lrtm_count_distinct called in non-aggregate context'')
      else
        (case state of
           None \<Rightarrow> Inr (None, [])
         | Some eset \<Rightarrow>
             (case build_array thr eset of
                Inl e \<Rightarrow> Inl e
              | Inr (s, xs) \<Rightarrow> Inr (Some s, xs))))"

section \<open>Well-formed sets\<close>

text \<open>
  What the operations rely on: items have a size, the prefix is part of the stored items, the
  stored items are written bytes of the buffer, and the buffer size fits \<^verbatim>\<open>uint32\<close>.
\<close>

definition eset_ok :: "element_set_t \<Rightarrow> bool" where
  "eset_ok s = (0 < item_size s \<and> nsorted s \<le> nall s \<and> nall s * item_size s \<le> length (data s)
      \<and> length (data s) \<le> nbytes s \<and> nbytes s < 2 ^ 32)"

definition same_header :: "element_set_t \<Rightarrow> element_set_t \<Rightarrow> bool" where
  "same_header s s' = (item_size s' = item_size s \<and> nbytes s' = nbytes s \<and> typalign s' = typalign s
      \<and> pad s' = pad s \<and> aggctx s' = aggctx s)"

definition by_value_width :: "nat \<Rightarrow> bool" where
  \<comment> \<open>the lengths of the fixed-length types that PostgreSQL passes by value\<close>
  "by_value_width sz = (sz = 1 \<or> sz = 2 \<or> sz = 4 \<or> sz = 8)"

definition eset_inv :: "element_set_t \<Rightarrow> bool" where
  \<comment> \<open>a well-formed set of by-value items in a buffer as the allocator and the growth
      policy make it: non-empty, within the allocator's limit, and either a whole number of
      items or at least five items long (\<^verbatim>\<open>init_set\<close> allocates 32 bytes, doubling keeps
      the size a multiple of the item size, and the growth by a quarter starts above the
      threshold)\<close>
  "eset_inv s = (eset_ok s \<and> by_value_width (item_size s) \<and> 0 < nbytes s
      \<and> nbytes s \<le> MaxAllocSize \<and> (item_size s dvd nbytes s \<or> 5 * item_size s \<le> nbytes s))"

definition capacity_wanted :: "nat \<Rightarrow> element_set_t \<Rightarrow> bool \<Rightarrow> nat" where
  \<comment> \<open>the capacity that the growth step asks for, in whole numbers: twice the capacity or
      five quarters of it when space is needed and less than a fifth of the buffer is free,
      the capacity itself otherwise\<close>
  "capacity_wanted thr e need =
     (if need \<and> 5 * (nbytes e - nall e * item_size e) < nbytes e
      then (if 5 * nbytes e < 4 * thr then 2 * nbytes e else 5 * nbytes e div 4)
      else nbytes e)"

definition struct_ok :: "element_set_t \<Rightarrow> bool" where
  \<comment> \<open>the sizes of the alignment gap and of the pointer in the struct\<close>
  "struct_ok s = (length (pad s) = 7 \<and> length (aggctx s) = 8)"

definition ascending :: "byte list list \<Rightarrow> bool" where
  \<comment> \<open>strictly increasing under \<^verbatim>\<open>memcmp\<close>\<close>
  "ascending xs = sorted_wrt (\<lambda>a b. memcmp a b < 0) xs"

definition header4 :: "element_set_t \<Rightarrow> byte list" where
  \<comment> \<open>the four \<^verbatim>\<open>uint32\<close> fields, as the specification lists them\<close>
  "header4 s = le32 (item_size s) @ le32 (nsorted s) @ le32 (nall s) @ le32 (nbytes s)"

definition spec_serial_layout :: "element_set_t \<Rightarrow> byte list" where
  \<comment> \<open>the layout in the words of the specification: the four fields and nothing else, then
      \<open>total_count * item_size\<close> bytes of items\<close>
  "spec_serial_layout s = header4 s @ take (nall s * item_size s) (data s)"

definition raw0 :: element_set_t where
  \<comment> \<open>some content of a freshly allocated struct\<close>
  "raw0 = \<lparr>item_size = 0, nsorted = 0, nall = 0, nbytes = 0, typalign = 0,
          pad = [0, 0, 0, 0, 0, 0, 0], aggctx = [0, 0, 0, 0, 0, 0, 0, 0], data = []\<rparr>"

definition ctx0 :: "byte list" where
  \<comment> \<open>some aggregate memory context, as the bytes of the pointer\<close>
  "ctx0 = [16, 32, 48, 64, 80, 127, 0, 0]"

definition char_type :: typinfo where
  \<comment> \<open>the catalogue entry of a one-byte type passed by value\<close>
  "char_type = \<lparr>typlen = 1, typbyval = True, typalign_of = 99\<rparr>"

definition datum1 :: "byte \<Rightarrow> byte list" where
  \<comment> \<open>the \<^verbatim>\<open>Datum\<close> of a one-byte value\<close>
  "datum1 b = [b, 0, 0, 0, 0, 0, 0, 0]"

text \<open>
  The executor calls the transition function once per input row of the group, threading
  the state.
\<close>

fun append_all ::
  "nat \<Rightarrow> byte list option \<Rightarrow> element_set_t \<Rightarrow> typinfo \<Rightarrow> element_set_t option \<Rightarrow>
   byte list option list \<Rightarrow> error + element_set_t option" where
  "append_all thr ctx raw tinfo state [] = Inr state"
| "append_all thr ctx raw tinfo state (v # vs) =
     (case lrtm_count_distinct_append thr ctx raw tinfo state v of
        Inl e \<Rightarrow> Inl e
      | Inr state' \<Rightarrow> append_all thr ctx raw tinfo state' vs)"

definition set_of_bytes :: "byte list \<Rightarrow> element_set_t" where
  \<comment> \<open>the state after the given one-byte values were appended to a new set (fewer than 32)\<close>
  "set_of_bytes bs = \<lparr>item_size = 1, nsorted = 0, nall = length bs, nbytes = 32, typalign = 99,
          pad = [0, 0, 0, 0, 0, 0, 0], aggctx = ctx0, data = bs\<rparr>"

definition tight_of_bytes :: "byte list \<Rightarrow> element_set_t" where
  \<comment> \<open>a compacted set in a buffer of exactly its size, as deserialising or combining makes it\<close>
  "tight_of_bytes bs = \<lparr>item_size = 1, nsorted = length bs, nall = length bs,
          nbytes = length bs, typalign = 99,
          pad = [0, 0, 0, 0, 0, 0, 0], aggctx = ctx0, data = bs\<rparr>"

definition set_c13 :: element_set_t where
  \<comment> \<open>a fully compacted set of the one-byte values 1 and 3\<close>
  "set_c13 = \<lparr>item_size = 1, nsorted = 2, nall = 2, nbytes = 32, typalign = 99,
          pad = [0, 0, 0, 0, 0, 0, 0], aggctx = [16, 32, 48, 64, 80, 127, 0, 0], data = [1, 3]\<rparr>"

definition payload_trailing :: "byte list" where
  \<comment> \<open>the serialised \<open>set_c13\<close> followed by one more byte\<close>
  "payload_trailing =
     [1, 0, 0, 0, 2, 0, 0, 0, 2, 0, 0, 0, 32, 0, 0, 0,
      99, 0, 0, 0, 0, 0, 0, 0, 16, 32, 48, 64, 80, 127, 0, 0, 1, 3, 9]"

definition payload_unsorted :: "byte list" where
  \<comment> \<open>a payload of the right length whose header has \<open>nsorted = 0\<close> and \<open>nall = 2\<close>\<close>
  "payload_unsorted =
     [1, 0, 0, 0, 0, 0, 0, 0, 2, 0, 0, 0, 32, 0, 0, 0,
      99, 0, 0, 0, 0, 0, 0, 0, 16, 32, 48, 64, 80, 127, 0, 0, 3, 1]"

definition data4096 :: "byte list" where
  \<comment> \<open>the 512 eight-byte items whose last two bytes count from 0 to 511\<close>
  "data4096 = concat (map (\<lambda>i. [0, 0, 0, 0, 0, 0, of_nat (i div 256), of_nat (i mod 256)])
                          [0..<512])"

definition set_full4096 :: element_set_t where
  \<comment> \<open>a compacted set that fills its buffer of 4096 bytes\<close>
  "set_full4096 = \<lparr>item_size = 8, nsorted = 512, nall = 512, nbytes = 4096, typalign = 100,
          pad = [0, 0, 0, 0, 0, 0, 0], aggctx = [16, 32, 48, 64, 80, 127, 0, 0],
          data = data4096\<rparr>"

definition set_1_3 :: element_set_t where
  \<comment> \<open>the one-byte values 3 and 1 appended to a new set\<close>
  "set_1_3 = \<lparr>item_size = 1, nsorted = 0, nall = 2, nbytes = 32, typalign = 99,
          pad = [0, 0, 0, 0, 0, 0, 0], aggctx = [0, 0, 0, 0, 0, 0, 0, 0], data = [3, 1]\<rparr>"

section \<open>Auxiliary facts\<close>

lemma u32_id: "x < 2 ^ 32 \<Longrightarrow> u32 x = x"
  by (simp add: u32_def)

lemma u32_sub_id:
  assumes "b \<le> a" "a < 2 ^ 32"
  shows "u32_sub a b = a - b"
proof -
  have 1: "u32 a = a" "u32 b = b" using assms by (simp_all add: u32_def)
  have 2: "a + 2 ^ 32 - b = (a - b) + 2 ^ 32" using assms by simp
  have "(a - b + 2 ^ 32) mod 2 ^ 32 = (a - b) mod (2 ^ 32 :: nat)" by (rule mod_add_self2)
  also have "\<dots> = a - b" using assms by simp
  finally show ?thesis by (simp only: u32_sub_def 1 2)
qed

lemma length_item_at: "off + sz \<le> length d \<Longrightarrow> length (item_at d off sz) = sz"
  by (simp add: item_at_def)

lemma length_memcpy: "off + length src \<le> length d \<Longrightarrow> length (memcpy d off src) = length d"
  by (simp add: memcpy_def)

lemma length_concat_insert_item:
  "length (concat (insert_item x xs)) = length x + length (concat xs)"
  by (induction xs) auto

lemma length_concat_sort_items: "length (concat (sort_items xs)) = length (concat xs)"
  by (induction xs) (auto simp: sort_items_def length_concat_insert_item)


lemma length_concat_items_of:
  "base + n * sz \<le> length d \<Longrightarrow> length (concat (items_of d base n sz)) = n * sz"
proof (induction d base n sz rule: items_of.induct)
  case (1 d base n sz)
  show ?case
  proof (cases "n = 0")
    case True
    then show ?thesis by (simp add: items_of.simps)
  next
    case False
    then obtain m where m: "n = Suc m" by (cases n) auto
    have "base + sz + (n - 1) * sz \<le> length d" using "1.prems" m by simp
    then have "length (concat (items_of d (base + sz) (n - 1) sz)) = (n - 1) * sz"
      using "1.IH" False by simp
    moreover have "length (item_at d base sz) = sz"
      using "1.prems" m by (simp add: length_item_at)
    ultimately show ?thesis
      using m by (subst items_of.simps) simp
  qed
qed


lemma length_qsort_arg:
  "base + n * sz \<le> length d \<Longrightarrow> length (qsort_arg d base n sz) = length d"
  by (simp add: qsort_arg_def length_memcpy length_concat_sort_items length_concat_items_of)


lemma dedup_loop_bounds:
  "0 < sz \<Longrightarrow> base + n * sz \<le> length d \<Longrightarrow> length d < 2 ^ 32 \<Longrightarrow>
   lst + sz \<le> base + i * sz \<Longrightarrow> dedup_loop sz base n i lst cnt d = (cnt', d') \<Longrightarrow>
   length d' = length d \<and> cnt \<le> cnt' \<and> cnt' - cnt \<le> n - i"
proof (induction sz base n i lst cnt d rule: dedup_loop.induct)
  case (1 sz base n i lst cnt d)
  show ?case
  proof (cases "i < n")
    case False
    then show ?thesis using "1.prems"(5) by (simp add: dedup_loop.simps)
  next
    case True
    have "i * sz \<le> n * sz" using True by (intro mult_le_mono1) simp
    then have "i * sz < 2 ^ 32" using "1.prems"(2,3) by linarith
    then have isz: "u32 (i * sz) = i * sz" by (rule u32_id)
    have "(i + 1) * sz \<le> n * sz" using True by (intro mult_le_mono1) simp
    then have curr_in: "base + i * sz + sz \<le> length d"
      using "1.prems"(2) by (simp add: algebra_simps)
    let ?curr = "base + i * sz"
    show ?thesis
    proof (cases "memcmp (item_at d lst sz) (item_at d ?curr sz) \<noteq> 0")
      case False
      note IH = "1.IH"(2)[OF True refl, unfolded isz, OF False "1.prems"(1,2,3)]
      have eq: "dedup_loop sz base n (i + 1) lst cnt d = (cnt', d')"
        using "1.prems"(5) True isz False by (subst (asm) dedup_loop.simps) (simp add: Let_def)
      have p4: "lst + sz \<le> base + (i + 1) * sz"
        using "1.prems"(4) by (simp add: algebra_simps)
      from IH[OF p4 eq] show ?thesis by auto
    next
      case ne: True
      let ?d1 = "if lst + sz \<noteq> ?curr then memcpy d (lst + sz) (item_at d ?curr sz) else d"
      have len1: "length ?d1 = length d"
        using curr_in "1.prems"(4) by (simp add: length_memcpy length_item_at)
      have eq: "dedup_loop sz base n (i + 1) (lst + sz) (cnt + 1) ?d1 = (cnt', d')"
        using "1.prems"(5) True isz ne
        by (subst (asm) dedup_loop.simps) (simp add: Let_def)
      have p2: "base + n * sz \<le> length ?d1" using "1.prems"(2) by (simp only: len1)
      have p3: "length ?d1 < 2 ^ 32" using "1.prems"(3) by (simp only: len1)
      have p4: "lst + sz + sz \<le> base + (i + 1) * sz"
        using "1.prems"(4) by (simp add: algebra_simps)
      note IH = "1.IH"(1)[OF True refl _ refl refl, unfolded isz, OF ne "1.prems"(1) p2 p3 p4 eq]
      then show ?thesis using len1 True by auto
    qed
  qed
qed


lemma dvd_step:
  fixes sz a a_max :: nat
  assumes h: "0 < sz" "a < a_max" "sz dvd (a_max - a)"
  shows "a + sz \<le> a_max \<and> sz dvd (a_max - (a + sz))"
proof -
  from h have "sz \<le> a_max - a" by (intro dvd_imp_le) simp_all
  then have le: "a + sz \<le> a_max" using h by simp
  have "a_max - (a + sz) = (a_max - a) - sz" by simp
  moreover have "sz dvd (a_max - a) - sz" using h(3) by (rule dvd_diff_nat) simp
  ultimately show ?thesis using le by simp
qed


lemma merge_loop_total:
  "0 < sz \<Longrightarrow> a < a_max \<Longrightarrow> b < b_max \<Longrightarrow> sz dvd (a_max - a) \<Longrightarrow> sz dvd (b_max - b) \<Longrightarrow>
   a_max \<le> length d \<Longrightarrow> b_max \<le> length d \<Longrightarrow>
   \<exists>out'. merge_loop sz d a a_max b b_max out = Some out'
      \<and> length out' \<le> length out + (a_max - a) + (b_max - b)
      \<and> length out + sz \<le> length out'"
proof (induction "(a_max - a) + (b_max - b)" arbitrary: a b out rule: less_induct)
  case less
  note sz = \<open>0 < sz\<close>
  have a_st: "a + sz \<le> a_max" "sz dvd (a_max - (a + sz))"
    using dvd_step[OF sz less.prems(2) less.prems(4)] by simp_all
  have b_st: "b + sz \<le> b_max" "sz dvd (b_max - (b + sz))"
    using dvd_step[OF sz less.prems(3) less.prems(5)] by simp_all
  have la: "length (item_at d a sz) = sz"
    using a_st(1) less.prems(6) by (intro length_item_at) simp
  have lb: "length (item_at d b sz) = sz"
    using b_st(1) less.prems(7) by (intro length_item_at) simp
  define r where "r = memcmp (item_at d a sz) (item_at d b sz)"
  define st where "st = (if r = 0 then (a + sz, b + sz, out @ item_at d a sz)
              else if r < 0 then (a + sz, b, out @ item_at d a sz)
              else (a, b + sz, out @ item_at d b sz))"
  obtain a' b' out' where st_eq: "st = (a', b', out')" by (cases st) auto
  have props: "a \<le> a' \<and> a' \<le> a_max \<and> b \<le> b' \<and> b' \<le> b_max \<and> a + b + sz \<le> a' + b'
      \<and> length out' = length out + sz \<and> sz dvd (a_max - a') \<and> sz dvd (b_max - b')"
    using st_eq a_st b_st la lb less.prems(2,3,4,5)
    by (auto simp: st_def split: if_splits)
  have unf: "merge_loop sz d a a_max b b_max out =
      (if a' = a_max \<or> b' = b_max then
           Some (if a' \<noteq> a_max then out' @ item_at d a' (a_max - a')
                 else if b' \<noteq> b_max then out' @ item_at d b' (b_max - b')
                 else out')
         else if sz = 0 \<or> a_max < a' \<or> b_max < b' then None
         else merge_loop sz d a' a_max b' b_max out')"
    by (subst merge_loop.simps) (simp add: Let_def r_def[symmetric] st_def[symmetric] st_eq)
  show ?case
  proof (cases "a' = a_max \<or> b' = b_max")
    case True
    have ra: "length (item_at d a' (a_max - a')) = a_max - a'"
      using props less.prems(6) by (intro length_item_at) simp
    have rb: "length (item_at d b' (b_max - b')) = b_max - b'"
      using props less.prems(7) by (intro length_item_at) simp
    show ?thesis using True props ra rb by (auto simp: unf)
  next
    case False
    then have lt: "a' < a_max" "b' < b_max" using props by auto
    have m: "(a_max - a') + (b_max - b') < (a_max - a) + (b_max - b)"
      using props sz lt by linarith
    from less.hyps[OF m sz lt _ _ less.prems(6,7), of out'] props
    obtain out'' where o: "merge_loop sz d a' a_max b' b_max out' = Some out''"
       "length out'' \<le> length out' + (a_max - a') + (b_max - b')"
       "length out' + sz \<le> length out''" by auto
    have "length out'' \<le> length out + (a_max - a) + (b_max - b)"
      using o(2) props lt by linarith
    moreover have "length out + sz \<le> length out''" using o(3) props by linarith
    ultimately show ?thesis using False lt sz o(1) by (simp add: unf)
  qed
qed


lemma compact_core_compacted: "nall s \<le> nsorted s \<Longrightarrow> compact_core s = Inr s"
  by (simp add: compact_core_def Let_def)




lemma sort_suffix_ok:
  assumes ok: "eset_ok s" and lt: "nsorted s < nall s"
  shows "eset_ok (sort_suffix s) \<and> same_header s (sort_suffix s)
         \<and> nall (sort_suffix s) \<le> nall s \<and> 0 < nall (sort_suffix s)
         \<and> (nsorted s = 0 \<longrightarrow> nsorted (sort_suffix s) = nall (sort_suffix s))
         \<and> (0 < nsorted s \<longrightarrow> nsorted (sort_suffix s) = nsorted s
               \<and> nsorted s < nall (sort_suffix s))"
proof -
  define sz where "sz = item_size s"
  define ns where "ns = nsorted s"
  define na where "na = nall s"
  have sz: "0 < sz" and le: "ns < na" and fit: "na * sz \<le> length (data s)"
    and cap: "length (data s) \<le> nbytes s" and nb: "nbytes s < 2 ^ 32"
    using ok lt by (simp_all add: eset_ok_def sz_def ns_def na_def)
  have na_le: "na \<le> na * sz" using sz by simp
  have ns_sz: "ns * sz \<le> na * sz" using le by (intro mult_le_mono1) simp
  have small: "na * sz < 2 ^ 32" using fit cap nb by linarith
  have u_base: "u32 (ns * sz) = ns * sz" using ns_sz small by (intro u32_id) linarith
  have u_n: "u32_sub na ns = na - ns" using le na_le small by (intro u32_sub_id) linarith+
  define n where "n = na - ns"
  have n_pos: "0 < n" using le by (simp add: n_def)
  have "ns + n = na" using le by (simp add: n_def)
  then have "(ns + n) * sz = na * sz" by simp
  then have region: "ns * sz + n * sz = na * sz" by (simp only: add_mult_distrib)
  define d1 where "d1 = qsort_arg (data s) (ns * sz) n sz"
  have len1: "length d1 = length (data s)"
    unfolding d1_def using fit region by (intro length_qsort_arg) simp
  obtain cnt d2 where dl: "dedup_loop sz (ns * sz) n 1 (ns * sz) 1 d1 = (cnt, d2)"
    by (cases "dedup_loop sz (ns * sz) n 1 (ns * sz) 1 d1") auto
  have "length d2 = length d1 \<and> 1 \<le> cnt \<and> cnt - 1 \<le> n - 1"
    using fit region len1 nb cap
    by (intro dedup_loop_bounds[OF sz _ _ _ dl]) simp_all
  then have len2: "length d2 = length (data s)" and cnt1: "1 \<le> cnt" and cntn: "cnt \<le> n"
    using len1 n_pos by auto
  have nc: "ns + cnt \<le> na" using cntn le by (simp add: n_def)
  have u_na: "u32 (ns + cnt) = ns + cnt"
    using nc na_le small by (intro u32_id) linarith
  have u_c: "u32 cnt = cnt" using nc na_le small by (intro u32_id) linarith
  have unf: "sort_suffix s = (if ns = 0 then s\<lparr>data := d2, nall := ns + cnt, nsorted := ns + cnt\<rparr>
                         else s\<lparr>data := d2, nall := ns + cnt\<rparr>)"
    unfolding sort_suffix_def Let_def sz_def[symmetric] ns_def[symmetric] na_def[symmetric]
      u_base u_n n_def[symmetric] d1_def[symmetric] dl
    by (simp add: u_na u_c ns_def[symmetric])
  have nac: "(ns + cnt) * sz \<le> na * sz" using nc by (rule mult_le_mono1)
  then have "(ns + cnt) * sz \<le> length d2" using fit len2 by linarith
  then show ?thesis
    using ok cnt1 nc len2 le
    by (auto simp: unf eset_ok_def same_header_def na_def[symmetric] sz_def[symmetric]
          ns_def[symmetric])
qed

lemma merge_prefix_ok:
  assumes ok: "eset_ok s" and lt: "nsorted s < nall s" and pos: "0 < nsorted s"
  shows "\<exists>s'. merge_prefix s = Inr s' \<and> eset_ok s' \<and> same_header s s' \<and> nsorted s' = nall s'
            \<and> nall s' \<le> nall s \<and> 0 < nall s'"
proof -
  define sz where "sz = item_size s"
  define ns where "ns = nsorted s"
  define na where "na = nall s"
  have sz: "0 < sz" and le: "ns < na" and fit: "na * sz \<le> length (data s)"
    and cap: "length (data s) \<le> nbytes s" and nb: "nbytes s < 2 ^ 32" and ns: "0 < ns"
    using ok lt pos by (simp_all add: eset_ok_def sz_def ns_def na_def)
  have na_le: "na \<le> na * sz" using sz by simp
  have ns_sz: "ns * sz \<le> na * sz" using le by (intro mult_le_mono1) simp
  have small: "na * sz < 2 ^ 32" using fit cap nb by linarith
  have u_a: "u32 (ns * sz) = ns * sz" using ns_sz small by (intro u32_id) linarith
  have u_b: "u32 (na * sz) = na * sz" using small by (rule u32_id)
  have m1: "0 < ns * sz" using ns sz by simp
  have m2: "ns * sz < na * sz" using le sz by simp
  have m3: "sz dvd (ns * sz - 0)" by simp
  have m4: "sz dvd (na * sz - ns * sz)" by (simp flip: diff_mult_distrib)
  have m5: "ns * sz \<le> length (data s)" using ns_sz fit by linarith
  from merge_loop_total[OF sz m1 m2 m3 m4 m5 fit, of "[]"]
  obtain out where o: "merge_loop sz (data s) 0 (ns * sz) (ns * sz) (na * sz) [] = Some out"
    "length out \<le> na * sz" "sz \<le> length out"
    using ns_sz by auto
  have fits: "length out \<le> nbytes s" using o(2) fit cap by linarith
  define k where "k = length out div sz"
  have k_le: "k \<le> na"
  proof -
    have "length out div sz \<le> (na * sz) div sz" using o(2) by (rule div_le_mono)
    then show ?thesis using sz by (simp add: k_def)
  qed
  have k_pos: "0 < k" using o(3) sz by (simp add: k_def div_greater_zero_iff)
  have k_sz: "k * sz \<le> length out" by (simp add: k_def)
  have u_k: "u32 k = k" using k_le na_le small by (intro u32_id) linarith
  have res: "merge_prefix s = Inr (s\<lparr>nsorted := k, nall := k, data := out\<rparr>)"
    unfolding merge_prefix_def Let_def sz_def[symmetric] ns_def[symmetric] na_def[symmetric]
      u_a u_b o(1)
    using fits by (simp add: k_def[symmetric] u_k)
  show ?thesis
    using ok k_pos k_sz k_le fits
    by (simp add: res eset_ok_def same_header_def na_def sz_def)
qed

lemma compact_core_ok:
  assumes ok: "eset_ok s"
  shows "\<exists>s'. compact_core s = Inr s' \<and> eset_ok s' \<and> same_header s s' \<and> nsorted s' = nall s'
            \<and> nall s' \<le> nall s \<and> (0 < nall s \<longrightarrow> 0 < nall s')"
proof (cases "nsorted s < nall s")
  case False
  then have "nall s = nsorted s" using ok by (simp add: eset_ok_def)
  then show ?thesis using ok by (simp add: compact_core_compacted same_header_def)
next
  case True
  note ss = sort_suffix_ok[OF ok True]
  show ?thesis
  proof (cases "nsorted s = 0")
    case z: True
    then show ?thesis using ss True by (simp add: compact_core_def Let_def)
  next
    case False
    then have lt: "nsorted (sort_suffix s) < nall (sort_suffix s)"
      and pos: "0 < nsorted (sort_suffix s)" using ss by auto
    from merge_prefix_ok[OF _ lt pos] ss
    obtain s' where s': "merge_prefix (sort_suffix s) = Inr s'" "eset_ok s'"
      "same_header (sort_suffix s) s'" "nsorted s' = nall s'"
      "nall s' \<le> nall (sort_suffix s)" "0 < nall s'" by auto
    have "same_header s s'" using s'(3) ss by (simp add: same_header_def)
    then show ?thesis using s' ss True lt by (simp add: compact_core_def Let_def)
  qed
qed

lemma frac_lt_iff: "0 < n \<Longrightarrow> ((of_nat x :: rat) / of_nat n < 2 / 10) = (5 * x < n)"
proof -
  assume n: "0 < n"
  have "((of_nat x :: rat) / of_nat n < 2 / 10) = ((of_nat x :: rat) * 10 < 2 * of_nat n)"
    using n by (simp add: field_simps)
  also have "\<dots> = ((of_nat (x * 10) :: rat) < of_nat (2 * n))" by simp
  also have "\<dots> = (x * 10 < 2 * n)" by (simp only: of_nat_less_iff)
  also have "\<dots> = (5 * x < n)" by arith
  finally show ?thesis .
qed

lemma thr_lt_iff: "((of_nat n :: rat) / (8 / 10) < of_nat thr) = (5 * n < 4 * thr)"
proof -
  have "((of_nat n :: rat) / (8 / 10) < of_nat thr) = ((of_nat n :: rat) * 10 < of_nat thr * 8)"
    by (simp add: field_simps)
  also have "\<dots> = ((of_nat (n * 10) :: rat) < of_nat (thr * 8))" by simp
  also have "\<dots> = (n * 10 < thr * 8)" by (simp only: of_nat_less_iff)
  also have "\<dots> = (5 * n < 4 * thr)" by arith
  finally show ?thesis .
qed

lemma grow_floor: "nat \<lfloor>(of_nat n :: rat) / (8 / 10)\<rfloor> = 5 * n div 4"
proof -
  have "(of_nat n :: rat) / (8 / 10) = of_int (int (5 * n)) / of_int 4"
    by simp
  then have "\<lfloor>(of_nat n :: rat) / (8 / 10)\<rfloor> = int (5 * n) div 4"
    by (simp only: floor_divide_of_int_eq)
  then show ?thesis
    by (simp add: nat_div_distrib)
qed

lemma grow_set_False: "grow_set thr s False = Inr s"
  by (simp add: grow_set_def)

lemma compact_set_False: "compact_set thr s False = compact_core s"
  by (cases "compact_core s") (simp_all add: compact_set_def grow_set_False)

lemma le32_roundtrip:
  assumes x: "x < 2 ^ 32"
  shows "le32_nat (le32 x) = x"
proof -
  have b: "unat (of_nat (n mod 256) :: byte) = n mod 256" for n
    by (simp add: unat_of_nat)
  define q1 where "q1 = x div 256"
  define q2 where "q2 = q1 div 256"
  define q3 where "q3 = q2 div 256"
  define r0 where "r0 = x mod 256"
  define r1 where "r1 = q1 mod 256"
  define r2 where "r2 = q2 mod 256"
  have e1: "x = r0 + 256 * q1" by (simp add: r0_def q1_def)
  have e2: "q1 = r1 + 256 * q2" by (simp add: r1_def q2_def)
  have e3: "q2 = r2 + 256 * q3" by (simp add: r2_def q3_def)
  have d2: "x div 65536 = q2"
    using div_mult2_eq[of x 256 256] by (simp add: q2_def q1_def)
  have d3: "x div 16777216 = q3"
    using div_mult2_eq[of x 65536 256] by (simp add: q3_def d2)
  have "x div 16777216 < 256" using x by (simp add: less_mult_imp_div_less)
  then have m3: "q3 mod 256 = q3" by (simp add: d3)
  have sum: "r0 + 256 * r1 + 65536 * r2 + 16777216 * q3 = x"
    using e1 e2 e3 by linarith
  have bb: "unat (of_nat n :: byte) = n" if "n < 256" for n
    using that by (simp add: unat_of_nat)
  have lt: "r0 < 256" "r1 < 256" "r2 < 256" "q3 < 256"
    using m3 \<open>x div 16777216 < 256\<close> by (simp_all add: r0_def r1_def r2_def d3)
  have "le32 x = [of_nat r0, of_nat r1, of_nat r2, of_nat q3]"
    by (simp only: le32_def d2 d3 m3 r0_def r1_def r2_def q1_def)
  then have "le32_nat (le32 x) = unat (of_nat r0 :: byte) + 256 * unat (of_nat r1 :: byte)
      + 65536 * unat (of_nat r2 :: byte) + 16777216 * unat (of_nat q3 :: byte)"
    by (simp only: le32_nat_def list.case)
  then show ?thesis
    by (simp only: bb[OF lt(1)] bb[OF lt(2)] bb[OF lt(3)] bb[OF lt(4)] sum)
qed

lemma length_le32: "length (le32 x) = 4"
  by (simp add: le32_def)

lemma items_of_append:
  "items_of (pre @ d) (length pre + off) n sz = items_of d off n sz"
proof (induction d off n sz rule: items_of.induct)
  case (1 d base n sz)
  show ?case
  proof (cases "n = 0")
    case True
    then show ?thesis by (simp add: items_of.simps)
  next
    case False
    have "items_of (pre @ d) (length pre + (base + sz)) (n - 1) sz = items_of d (base + sz) (n - 1) sz"
      using "1.IH"[OF False] .
    then show ?thesis
      using False
      by (subst items_of.simps, subst (2) items_of.simps) (simp add: item_at_def add.assoc)
  qed
qed

lemma items_of_take:
  "off + n * sz \<le> m \<Longrightarrow> items_of (take m d) off n sz = items_of d off n sz"
proof (induction d off n sz rule: items_of.induct)
  case (1 d base n sz)
  show ?case
  proof (cases "n = 0")
    case True
    then show ?thesis by (simp add: items_of.simps)
  next
    case False
    then obtain k where k: "n = Suc k" by (cases n) auto
    have "base + sz + (n - 1) * sz \<le> m" using "1.prems" k by simp
    then have ih: "items_of (take m d) (base + sz) (n - 1) sz = items_of d (base + sz) (n - 1) sz"
      using "1.IH"[OF False] by simp
    have "base + sz \<le> m" using "1.prems" k by simp
    then have "item_at (take m d) base sz = item_at d base sz"
      by (simp add: item_at_def drop_take take_take min_def)
    then show ?thesis
      using False ih
      by (subst items_of.simps, subst (2) items_of.simps) simp
  qed
qed


lemma length_struct_header: "struct_ok s \<Longrightarrow> length (struct_header s) = hlen"
  by (simp add: struct_header_def struct_ok_def hlen_def length_le32)

lemma struct_header_split: "struct_header s = header4 s @ [typalign s] @ pad s @ aggctx s"
  by (simp add: struct_header_def header4_def)

lemma hdr_fields_of_header:
  "hdr_field (struct_header s @ rest) 0 = le32_nat (le32 (item_size s))"
  "hdr_field (struct_header s @ rest) 1 = le32_nat (le32 (nsorted s))"
  "hdr_field (struct_header s @ rest) 2 = le32_nat (le32 (nall s))"
  "hdr_field (struct_header s @ rest) 3 = le32_nat (le32 (nbytes s))"
  by (simp_all add: hdr_field_def struct_header_def length_le32)

lemma tail_of_header:
  assumes "struct_ok s"
  shows "(struct_header s @ rest) ! 16 = typalign s"
    and "take 7 (drop 17 (struct_header s @ rest)) = pad s"
    and "take 8 (drop 24 (struct_header s @ rest)) = aggctx s"
    and "drop hlen (struct_header s @ rest) = rest"
  using assms
  by (simp_all add: struct_header_def struct_ok_def length_le32 nth_append hlen_def)

lemma serial_compacted:
  assumes ok: "eset_ok s" and st: "struct_ok s" and c: "nsorted s = nall s"
  shows "lrtm_count_distinct_serial thr True s
           = Inr (s, struct_header s @ take (nall s * item_size s) (data s))"
proof -
  have cc: "compact_set thr s False = Inr s"
    using c by (simp add: compact_set_False compact_core_compacted)
  have "nall s * item_size s < 2 ^ 32" using ok by (simp add: eset_ok_def)
  then have u: "u32 (nall s * item_size s) = nall s * item_size s" by (rule u32_id)
  have fit: "nall s * item_size s \<le> length (data s)" using ok by (simp add: eset_ok_def)
  show ?thesis
    using fit by (simp add: lrtm_count_distinct_serial_def cc u length_struct_header[OF st])
qed

lemma deserial_of_serial:
  assumes ok: "eset_ok s" and st: "struct_ok s" and c: "nsorted s = nall s" and pos: "0 < nall s"
  shows "lrtm_count_distinct_deserial ac True raw
           (struct_header s @ take (nall s * item_size s) (data s))
         = Inr (s\<lparr>nbytes := nall s * item_size s,
                   data := take (nall s * item_size s) (data s)\<rparr>)"
proof -
  let ?n = "nall s * item_size s"
  let ?p = "struct_header s @ take ?n (data s)"
  have fit: "?n \<le> length (data s)" and cap: "length (data s) \<le> nbytes s"
    and nb: "nbytes s < 2 ^ 32" and sz: "0 < item_size s"
    using ok by (simp_all add: eset_ok_def)
  have n_small: "?n < 2 ^ 32" using fit cap nb by linarith
  have "nall s \<le> ?n" using sz by simp
  then have na_small: "nall s < 2 ^ 32" using n_small by linarith
  have "item_size s \<le> ?n" using pos by simp
  then have sz_small: "item_size s < 2 ^ 32" using n_small by linarith
  have f: "hdr_field ?p 0 = item_size s" "hdr_field ?p 1 = nall s"
    "hdr_field ?p 2 = nall s" "hdr_field ?p 3 = nbytes s"
    using hdr_fields_of_header[of s "take ?n (data s)"] na_small sz_small nb c
    by (simp_all add: le32_roundtrip)
  have len: "length ?p = hlen + ?n"
    using fit by (simp add: length_struct_header[OF st])
  have u: "u32 ?n = ?n" using n_small by (rule u32_id)
  have hpos: "0 < hlen + ?n" and hmod: "(hlen + ?n + 2 ^ 64 - hlen) mod 2 ^ 64 = ?n"
    using n_small by (simp_all add: hlen_def)
  have npos: "0 < ?n" using pos sz by simp
  have hmod2: "?n mod 18446744073709551616 = ?n" using n_small by simp
  show ?thesis
    unfolding lrtm_count_distinct_deserial_def Let_def len f tail_of_header[OF st]
    using npos pos fit by (simp add: u hmod hmod2 mult.commute[of "item_size s"] c)
qed

lemma low_free_iff:
  assumes ok: "eset_ok e"
  shows "low_free e = (0 < nbytes e \<and> 5 * (nbytes e - nall e * item_size e) < nbytes e)"
proof -
  have fit: "nall e * item_size e \<le> nbytes e" and nb: "nbytes e < 2 ^ 32"
    using ok by (simp_all add: eset_ok_def)
  have u: "u32 (nall e * item_size e) = nall e * item_size e"
    using fit nb by (intro u32_id) linarith
  have us: "u32_sub (nbytes e) (nall e * item_size e) = nbytes e - nall e * item_size e"
    using fit nb by (rule u32_sub_id)
  show ?thesis
  proof (cases "nbytes e = 0")
    case True
    then show ?thesis by (simp add: low_free_def free_fract_def)
  next
    case False
    then have "0 < nbytes e" by simp
    from frac_lt_iff[OF this] False show ?thesis
      by (simp add: low_free_def free_fract_def ARRAY_FREE_FRACT_def u us)
  qed
qed

lemma capacity_wanted_bounds:
  "nbytes e \<le> capacity_wanted thr e need \<and> capacity_wanted thr e need \<le> 2 * nbytes e"
proof -
  have "nbytes e \<le> 5 * nbytes e div 4" "5 * nbytes e div 4 \<le> 2 * nbytes e" by linarith+
  then show ?thesis by (simp add: capacity_wanted_def)
qed

lemma grow_set_eq:
  assumes ok: "eset_ok e" and thr: "thr \<le> 2 ^ 31" and lim: "nbytes e \<le> MaxAllocSize"
  shows "grow_set thr e need =
           (if MaxAllocSize < capacity_wanted thr e need then Inl alloc_refused
            else Inr (e\<lparr>nbytes := capacity_wanted thr e need\<rparr>))"
proof (cases "need \<and> low_free e")
  case False
  then have "capacity_wanted thr e need = nbytes e"
    using low_free_iff[OF ok] by (auto simp: capacity_wanted_def)
  then show ?thesis using False lim by (auto simp: grow_set_def)
next
  case True
  have cap: "length (data e) \<le> nbytes e" using ok by (simp add: eset_ok_def)
  have lf: "5 * (nbytes e - nall e * item_size e) < nbytes e"
    using True low_free_iff[OF ok] by simp
  show ?thesis
  proof (cases "5 * nbytes e < 4 * thr")
    case dbl: True
    have w: "capacity_wanted thr e need = 2 * nbytes e"
      using True lf dbl by (simp add: capacity_wanted_def)
    have "2 * nbytes e < 2 ^ 32" using dbl thr by simp
    then have u: "u32 (nbytes e * 2) = 2 * nbytes e" by (simp add: u32_id mult.commute)
    have t: "take (2 * nbytes e) (data e) = data e" using cap by simp
    show ?thesis
      unfolding grow_set_def Let_def thr_lt_iff u w repalloc_def
      using True dbl by (simp add: t)
  next
    case q: False
    have w: "capacity_wanted thr e need = 5 * nbytes e div 4"
      using True lf q by (simp add: capacity_wanted_def)
    have small: "\<not> 2 ^ 32 \<le> 5 * nbytes e div 4" using lim by (simp add: MaxAllocSize_def)
    have "nbytes e \<le> 5 * nbytes e div 4" by simp
    then have t: "take (5 * nbytes e div 4) (data e) = data e" using cap by simp
    show ?thesis
      unfolding grow_set_def Let_def grow_floor thr_lt_iff w repalloc_def
      using True q small by (simp add: t)
  qed
qed

lemma length_data4096: "length data4096 = 4096"
  by (simp add: data4096_def length_concat comp_def sum_list_triv)

lemma set_full4096_ok: "eset_ok set_full4096"
  by (simp add: eset_ok_def set_full4096_def length_data4096)

lemma u32_id_num: "x < 4294967296 \<Longrightarrow> u32 x = x"
  by (simp add: u32_def)

lemma by_value_width_le: "by_value_width sz \<Longrightarrow> 0 < sz \<and> sz \<le> 8"
  by (auto simp: by_value_width_def)

lemma room_after_grow:
  assumes ok: "eset_ok e" and w: "by_value_width (item_size e)" and pos: "0 < nbytes e"
    and shape: "item_size e dvd nbytes e \<or> 5 * item_size e \<le> nbytes e"
    and thr: "40 \<le> thr"
  shows "nall e * item_size e + item_size e \<le> capacity_wanted thr e True"
proof -
  define sz where "sz = item_size e"
  define used where "used = nall e * sz"
  define nb where "nb = nbytes e"
  define cw where "cw = capacity_wanted thr e True"
  have sz: "0 < sz" "sz \<le> 8" using by_value_width_le[OF w] by (simp_all add: sz_def)
  have fit: "used \<le> nb" using ok by (simp add: eset_ok_def used_def nb_def sz_def)
  have sz_nb: "sz \<le> nb"
  proof (rule disjE[OF shape])
    assume "item_size e dvd nbytes e"
    then show ?thesis using pos by (simp add: sz_def nb_def dvd_imp_le)
  next
    assume "5 * item_size e \<le> nbytes e"
    then show ?thesis by (simp add: sz_def nb_def)
  qed
  have cw: "cw = (if 5 * (nb - used) < nb
                  then (if 5 * nb < 4 * thr then 2 * nb else 5 * nb div 4) else nb)"
    by (simp add: cw_def capacity_wanted_def nb_def used_def sz_def)
  have "used + sz \<le> cw"
  proof (cases "5 * (nb - used) < nb")
    case True
    show ?thesis
    proof (cases "5 * nb < 4 * thr")
      case True
      then show ?thesis using cw \<open>5 * (nb - used) < nb\<close> fit sz_nb by simp
    next
      case False
      then have "32 \<le> nb" using thr by linarith
      then have "nb + 8 \<le> 5 * nb div 4" by linarith
      then show ?thesis using cw \<open>5 * (nb - used) < nb\<close> False fit sz(2) by simp
    qed
  next
    case False
    then have free5: "nb \<le> 5 * (nb - used)" by simp
    have "sz \<le> nb - used"
    proof (rule disjE[OF shape])
      assume "5 * item_size e \<le> nbytes e"
      then show ?thesis using free5 by (simp add: sz_def nb_def)
    next
      assume d: "item_size e dvd nbytes e"
      have "sz dvd nb - used" using d by (simp add: sz_def nb_def used_def dvd_diff_nat)
      moreover have "0 < nb - used" using free5 pos by (simp add: nb_def)
      ultimately show ?thesis by (simp add: dvd_imp_le)
    qed
    then show ?thesis using cw False fit by simp
  qed
  then show ?thesis by (simp add: used_def sz_def cw_def)
qed

lemma capacity_wanted_shape:
  assumes w: "by_value_width (item_size e)"
    and shape: "item_size e dvd nbytes e \<or> 5 * item_size e \<le> nbytes e"
    and thr: "40 \<le> thr"
  shows "item_size e dvd capacity_wanted thr e need
         \<or> 5 * item_size e \<le> capacity_wanted thr e need"
proof (cases "need \<and> 5 * (nbytes e - nall e * item_size e) < nbytes e")
  case False
  then have "capacity_wanted thr e need = nbytes e" by (auto simp: capacity_wanted_def)
  then show ?thesis using shape by simp
next
  case True
  have sz8: "item_size e \<le> 8" using by_value_width_le[OF w] by simp
  show ?thesis
  proof (cases "5 * nbytes e < 4 * thr")
    case d: True
    then have "capacity_wanted thr e need = 2 * nbytes e"
      using True by (simp add: capacity_wanted_def)
    then show ?thesis using shape by auto
  next
    case q: False
    then have "32 \<le> nbytes e" using thr by linarith
    then have "40 \<le> 5 * nbytes e div 4" by linarith
    moreover have "capacity_wanted thr e need = 5 * nbytes e div 4"
      using True q by (simp add: capacity_wanted_def)
    ultimately show ?thesis using sz8 by simp
  qed
qed

text \<open>
  The sets that the transition functions build satisfy \<open>eset_inv\<close>: a new set does, and
  \<^verbatim>\<open>add_element\<close> keeps it whenever it returns.
\<close>

lemma init_set_inv:
  "by_value_width sz \<Longrightarrow> eset_inv (init_set raw sz ta ctx)"
  by (auto simp: eset_inv_def eset_ok_def init_set_def by_value_width_def u32_def
        ARRAY_INIT_SIZE_def MaxAllocSize_def)

lemma grow_set_shape:
  assumes ok: "eset_ok e" and w: "by_value_width (item_size e)" and pos: "0 < nbytes e"
    and lim: "nbytes e \<le> MaxAllocSize"
    and shape: "item_size e dvd nbytes e \<or> 5 * item_size e \<le> nbytes e"
    and thr: "40 \<le> thr" "thr \<le> 2 ^ 31"
    and g: "grow_set thr e need = Inr s'"
  shows "eset_ok s' \<and> item_size s' = item_size e \<and> nall s' = nall e \<and> nsorted s' = nsorted e
         \<and> 0 < nbytes s' \<and> nbytes s' \<le> MaxAllocSize
         \<and> (item_size s' dvd nbytes s' \<or> 5 * item_size s' \<le> nbytes s')"
proof -
  let ?cw = "capacity_wanted thr e need"
  from g have le: "?cw \<le> MaxAllocSize" and s': "s' = e\<lparr>nbytes := ?cw\<rparr>"
    unfolding grow_set_eq[OF ok thr(2) lim] by (auto split: if_splits)
  have b: "nbytes e \<le> ?cw" using capacity_wanted_bounds by blast
  have lt: "?cw < 4294967296" using le by (simp add: MaxAllocSize_def)
  have ok': "eset_ok s'" using ok b lt by (simp add: eset_ok_def s')
  from capacity_wanted_shape[OF w shape thr(1), of need]
  show ?thesis using ok' le b pos by (simp add: s')
qed

lemma add_element_inv:
  assumes inv: "eset_inv s" and thr: "40 \<le> thr" "thr \<le> 2 ^ 31"
    and run: "add_element thr s val = Inr s'"
  shows "eset_inv s'"
proof -
  have ok: "eset_ok s" and w: "by_value_width (item_size s)" and pos: "0 < nbytes s"
    and lim: "nbytes s \<le> MaxAllocSize"
    and shape: "item_size s dvd nbytes s \<or> 5 * item_size s \<le> nbytes s"
    using inv by (simp_all add: eset_inv_def)
  define t where "t = (case (if nbytes s < u32 (item_size s * u32 (nall s + 1))
            then compact_set thr s True else Inr s) of Inr t \<Rightarrow> t | Inl e \<Rightarrow> s)"
  have pre: "(if nbytes s < u32 (item_size s * u32 (nall s + 1))
            then compact_set thr s True else Inr s) = Inr t"
    using run by (auto simp: add_element_def t_def split: sum.splits)
  have t: "eset_ok t \<and> item_size t = item_size s \<and> 0 < nbytes t \<and> nbytes t \<le> MaxAllocSize
           \<and> (item_size t dvd nbytes t \<or> 5 * item_size t \<le> nbytes t)"
  proof (cases "nbytes s < u32 (item_size s * u32 (nall s + 1))")
    case False
    then have "t = s" using pre by simp
    then show ?thesis using ok pos shape lim by simp
  next
    case True
    then have cs: "compact_set thr s True = Inr t" using pre by simp
    from compact_core_ok[OF ok] obtain e where
      e: "compact_core s = Inr e" "eset_ok e" "same_header s e" by auto
    then have h: "nbytes e = nbytes s" "item_size e = item_size s"
      by (simp_all add: same_header_def)
    have g: "grow_set thr e True = Inr t" using cs e(1) by (simp add: compact_set_def)
    from grow_set_shape[OF e(2) _ _ _ _ thr g] w pos lim shape h
    show ?thesis by auto
  qed
  let ?off = "u32 (item_size t * nall t)"
  have s': "s' = t\<lparr>data := memcpy (data t) ?off (take (item_size t) val),
                     nall := u32 (nall t + 1)\<rparr>"
    and chk: "item_size t \<le> length val" "?off + item_size t \<le> nbytes t" "?off \<le> length (data t)"
    using run unfolding add_element_def pre
    by (auto simp: Let_def split: if_splits)
  have tok: "nsorted t \<le> nall t" "nall t * item_size t \<le> length (data t)"
    "length (data t) \<le> nbytes t" "nbytes t < 4294967296" "0 < item_size t"
    using t by (auto simp: eset_ok_def)
  have tm: "item_size t * nall t = nall t * item_size t" by (rule mult.commute)
  have u3: "?off = nall t * item_size t"
    using tok(2,3,4) unfolding tm by (intro u32_id_num) linarith
  have room: "nall t * item_size t + item_size t \<le> nbytes t" using chk(2) u3 by simp
  have "nall t \<le> nall t * item_size t" using tok(5) by simp
  then have "nall t + 1 \<le> nbytes t" using room tok(5) by linarith
  then have u4: "u32 (nall t + 1) = nall t + 1"
    using tok(4) by (intro u32_id_num) linarith
  have lenm: "length (memcpy (data t) (nall t * item_size t) (take (item_size t) val))
               = max (length (data t)) (nall t * item_size t + item_size t)"
    using tok(2) chk(1) by (simp add: memcpy_def min_def max_def)
  have s'': "s' = t\<lparr>data := memcpy (data t) (nall t * item_size t) (take (item_size t) val),
                      nall := nall t + 1\<rparr>"
    by (simp only: s' u3 u4)
  have f: "nall s' = nall t + 1" "nsorted s' = nsorted t" "nbytes s' = nbytes t"
    "item_size s' = item_size t"
    "length (data s') = max (length (data t)) (nall t * item_size t + item_size t)"
    by (simp_all add: s'' lenm)
  have e1: "(nall t + 1) * item_size t = nall t * item_size t + item_size t" by simp
  have ok': "eset_ok s'"
    unfolding eset_ok_def f e1 using tok room by simp
  have hd: "item_size s' = item_size s" "nbytes s' = nbytes t" using t f by simp_all
  show ?thesis
    using ok' w t hd by (auto simp: eset_inv_def)
qed

subsection \<open>Runs on reference inputs\<close>

lemmas append_eval = lrtm_count_distinct_append_def new_set_def init_set_def add_element_def
  memcpy_def u32_def ARRAY_INIT_SIZE_def Let_def char_type_def raw0_def datum1_def
  set_of_bytes_def

lemma items_of_0: "items_of d base 0 sz = []"
  by (simp add: items_of.simps)

lemma items_of_pos:
  "0 < n \<Longrightarrow> items_of d base n sz = item_at d base sz # items_of d (base + sz) (n - 1) sz"
  by (subst items_of.simps) simp

lemma dedup_loop_done: "\<not> i < n \<Longrightarrow> dedup_loop sz base n i lst cnt d = (cnt, d)"
  by (subst dedup_loop.simps) simp

lemma dedup_loop_step:
  "i < n \<Longrightarrow> dedup_loop sz base n i lst cnt d =
        (let curr = base + u32 (i * sz) in
         if memcmp (item_at d lst sz) (item_at d curr sz) \<noteq> 0 then
           (let lst' = lst + sz; cnt' = cnt + 1 in
            dedup_loop sz base n (i + 1) lst' cnt'
              (if lst' \<noteq> curr then memcpy d lst' (item_at d curr sz) else d))
         else dedup_loop sz base n (i + 1) lst cnt d)"
  by (subst dedup_loop.simps) simp

lemma combine_loop_done:
  "\<not> i < n \<Longrightarrow> combine_loop i n eset1 eset2 ptr1 ptr2 out = Inr (ptr1, ptr2, out)"
  by (subst combine_loop.simps) simp

lemma combine_loop_step:
  "i < n \<Longrightarrow> combine_loop i n eset1 eset2 ptr1 ptr2 out =
        (case pick_element eset1 eset2 ptr1 ptr2 of
           Inl e \<Rightarrow> Inl e
         | Inr (element, ptr1', ptr2') \<Rightarrow>
             if out = [] then
               (if u32 (nbytes eset1 + nbytes eset2) < length out + item_size eset1
                then Inl Undefined_behaviour
                else combine_loop (i + 1) n eset1 eset2 ptr1' ptr2' (out @ element))
             else if memcmp (item_at out (length out - item_size eset1) (item_size eset1))
                       element \<noteq> 0 then
               (if u32 (nbytes eset1 + nbytes eset2) < length out + item_size eset1
                then Inl Undefined_behaviour
                else combine_loop (i + 1) n eset1 eset2 ptr1' ptr2' (out @ element))
             else combine_loop (i + 1) n eset1 eset2 ptr1' ptr2' out)"
  by (subst combine_loop.simps) simp

lemmas sort_eval = qsort_arg_def sort_items_def compare_items_def items_of_0 items_of_pos
  item_at_def memcpy_def

lemmas dedup_eval = dedup_loop_done dedup_loop_step item_at_def memcpy_def u32_def Let_def

lemmas combine_eval = combine_loop_done combine_loop_step pick_element_def read_item_def
  item_at_def u32_def Let_def

lemma append_2444:
  "append_all 8192 (Some ctx0) raw0 char_type None
     [Some (datum1 2), Some (datum1 4), Some (datum1 4), Some (datum1 4)]
   = Inr (Some (set_of_bytes [2, 4, 4, 4]))"
  by (simp add: append_eval)

lemma append_46:
  "append_all 8192 (Some ctx0) raw0 char_type None [Some (datum1 4), Some (datum1 6)]
   = Inr (Some (set_of_bytes [4, 6]))"
  by (simp add: append_eval)

lemma append_1112:
  "append_all 8192 (Some ctx0) raw0 char_type None
     [Some (datum1 1), Some (datum1 1), Some (datum1 1), Some (datum1 2)]
   = Inr (Some (set_of_bytes [1, 1, 1, 2]))"
  by (simp add: append_eval)

lemma append_3:
  "append_all 8192 (Some ctx0) raw0 char_type None [Some (datum1 3)]
   = Inr (Some (set_of_bytes [3]))"
  by (simp add: append_eval)

lemma append_64:
  "append_all 8192 (Some ctx0) raw0 char_type None [Some (datum1 6), Some (datum1 4)]
   = Inr (Some (set_of_bytes [6, 4]))"
  by (simp add: append_eval)

lemma compact_2444:
  "compact_set thr (set_of_bytes [2, 4, 4, 4]) False
     = Inr ((set_of_bytes [2, 4, 4, 4])\<lparr>nsorted := 2, nall := 2\<rparr>)"
proof -
  have q: "qsort_arg [2, 4, 4, 4] 0 4 (Suc 0) = [2, 4, 4, 4]"
    by (simp add: sort_eval)
  have d: "dedup_loop (Suc 0) 0 4 (Suc 0) 0 (Suc 0) [2, 4, 4, 4] = (2, [2, 4, 4, 4])"
    by (simp add: dedup_eval)
  have "sort_suffix (set_of_bytes [2, 4, 4, 4])
          = (set_of_bytes [2, 4, 4, 4])\<lparr>nsorted := 2, nall := 2\<rparr>"
    by (simp add: sort_suffix_def set_of_bytes_def Let_def u32_def u32_sub_def q d)
  then show ?thesis
    by (simp add: compact_set_False compact_core_def Let_def) (simp add: set_of_bytes_def)
qed

lemma compact_46:
  "compact_set thr (set_of_bytes [4, 6]) False = Inr ((set_of_bytes [4, 6])\<lparr>nsorted := 2\<rparr>)"
proof -
  have q: "qsort_arg [4, 6] 0 2 (Suc 0) = [4, 6]"
    by (simp add: sort_eval)
  have d: "dedup_loop (Suc 0) 0 2 (Suc 0) 0 (Suc 0) [4, 6] = (2, [4, 6])"
    by (simp add: dedup_eval)
  have "sort_suffix (set_of_bytes [4, 6]) = (set_of_bytes [4, 6])\<lparr>nsorted := 2\<rparr>"
    by (simp add: sort_suffix_def set_of_bytes_def Let_def u32_def u32_sub_def q d)
  then show ?thesis
    by (simp add: compact_set_False compact_core_def Let_def) (simp add: set_of_bytes_def)
qed

lemma compact_64:
  "compact_set thr (set_of_bytes [6, 4]) False = Inr ((set_of_bytes [4, 6])\<lparr>nsorted := 2\<rparr>)"
proof -
  have q: "qsort_arg [6, 4] 0 2 (Suc 0) = [4, 6]"
    by (simp add: sort_eval)
  have d: "dedup_loop (Suc 0) 0 2 (Suc 0) 0 (Suc 0) [4, 6] = (2, [4, 6])"
    by (simp add: dedup_eval)
  have "sort_suffix (set_of_bytes [6, 4]) = (set_of_bytes [4, 6])\<lparr>nsorted := 2\<rparr>"
    by (simp add: sort_suffix_def set_of_bytes_def Let_def u32_def u32_sub_def q d)
  then show ?thesis
    by (simp add: compact_set_False compact_core_def Let_def) (simp add: set_of_bytes_def)
qed

lemma compact_1112:
  "compact_set thr (set_of_bytes [1, 1, 1, 2]) False
     = Inr ((set_of_bytes [1, 2, 1, 2])\<lparr>nsorted := 2, nall := 2\<rparr>)"
proof -
  have q: "qsort_arg [1, 1, 1, 2] 0 4 (Suc 0) = [1, 1, 1, 2]"
    by (simp add: sort_eval)
  have d: "dedup_loop (Suc 0) 0 4 (Suc 0) 0 (Suc 0) [1, 1, 1, 2] = (2, [1, 2, 1, 2])"
    by (simp add: dedup_eval)
  have "sort_suffix (set_of_bytes [1, 1, 1, 2])
          = (set_of_bytes [1, 2, 1, 2])\<lparr>nsorted := 2, nall := 2\<rparr>"
    by (simp add: sort_suffix_def set_of_bytes_def Let_def u32_def u32_sub_def q d)
  then show ?thesis
    by (simp add: compact_set_False compact_core_def Let_def) (simp add: set_of_bytes_def)
qed

lemma compact_3:
  "compact_set thr (set_of_bytes [3]) False = Inr ((set_of_bytes [3])\<lparr>nsorted := 1\<rparr>)"
proof -
  have q: "qsort_arg [3] 0 (Suc 0) (Suc 0) = [3]"
    by (simp add: sort_eval)
  have d: "dedup_loop (Suc 0) 0 (Suc 0) (Suc 0) 0 (Suc 0) [3] = (1, [3])"
    by (simp add: dedup_eval)
  have "sort_suffix (set_of_bytes [3]) = (set_of_bytes [3])\<lparr>nsorted := 1\<rparr>"
    by (simp add: sort_suffix_def set_of_bytes_def Let_def u32_def u32_sub_def q d)
  then show ?thesis
    by (simp add: compact_set_False compact_core_def Let_def) (simp add: set_of_bytes_def)
qed

lemma compact_tight: "compact_set thr (tight_of_bytes bs) False = Inr (tight_of_bytes bs)"
  by (simp add: compact_set_False compact_core_compacted tight_of_bytes_def)

lemma combine_both:
  assumes "compact_set thr a False = Inr a'" and "compact_set thr b False = Inr b'"
    and "combine_loop 0 (u32 (nall a' + nall b')) a' b' 0 0 [] = Inr (p1, p2, out)"
    and "item_size a' \<noteq> 0" and "u32 (nbytes a' + nbytes b') \<le> MaxAllocSize"
  shows "lrtm_count_distinct_combine thr (Some ctx) raw (Some a) (Some b)
           = Inr (Pointer (a'\<lparr>data := out, nbytes := u32 (length out),
                           nall := u32 (length out) div item_size a',
                           nsorted := u32 (length out) div item_size a'\<rparr>), Some b')"
  using assms by (simp add: lrtm_count_distinct_combine_def)

lemma combine_2444_46:
  "lrtm_count_distinct_combine 8192 (Some ctx0) raw0
       (Some (set_of_bytes [2, 4, 4, 4])) (Some (set_of_bytes [4, 6]))
     = Inr (Pointer (tight_of_bytes [2, 4]), Some ((set_of_bytes [4, 6])\<lparr>nsorted := 2\<rparr>))"
proof -
  let ?a = "(set_of_bytes [2, 4, 4, 4])\<lparr>nsorted := 2, nall := 2\<rparr>"
  let ?b = "(set_of_bytes [4, 6])\<lparr>nsorted := 2\<rparr>"
  have l: "combine_loop 0 (u32 (nall ?a + nall ?b)) ?a ?b 0 0 [] = Inr (4, 0, [2, 4])"
    by (simp add: combine_eval set_of_bytes_def)
  have z: "item_size ?a \<noteq> 0" by (simp add: set_of_bytes_def)
  have m: "u32 (nbytes ?a + nbytes ?b) \<le> MaxAllocSize"
    by (simp add: set_of_bytes_def u32_def MaxAllocSize_def)
  from combine_both[OF compact_2444 compact_46 l z m, of 8192 ctx0 raw0]
  show ?thesis by (simp add: u32_def set_of_bytes_def tight_of_bytes_def)
qed

lemma combine_1112_3:
  "lrtm_count_distinct_combine 8192 (Some ctx0) raw0
       (Some (set_of_bytes [1, 1, 1, 2])) (Some (set_of_bytes [3]))
     = Inr (Pointer (tight_of_bytes [1, 2, 1]), Some ((set_of_bytes [3])\<lparr>nsorted := 1\<rparr>))"
proof -
  let ?a = "(set_of_bytes [1, 2, 1, 2])\<lparr>nsorted := 2, nall := 2\<rparr>"
  let ?b = "(set_of_bytes [3])\<lparr>nsorted := 1\<rparr>"
  have l: "combine_loop 0 (u32 (nall ?a + nall ?b)) ?a ?b 0 0 [] = Inr (3, 0, [1, 2, 1])"
    by (simp add: combine_eval set_of_bytes_def)
  have z: "item_size ?a \<noteq> 0" by (simp add: set_of_bytes_def)
  have m: "u32 (nbytes ?a + nbytes ?b) \<le> MaxAllocSize"
    by (simp add: set_of_bytes_def u32_def MaxAllocSize_def)
  from combine_both[OF compact_1112 compact_3 l z m, of 8192 ctx0 raw0]
  show ?thesis by (simp add: u32_def set_of_bytes_def tight_of_bytes_def)
qed

lemma combine_t13_64:
  "lrtm_count_distinct_combine 8192 (Some ctx0) raw0
       (Some (tight_of_bytes [1, 3])) (Some (set_of_bytes [6, 4]))
     = Inr (Pointer (tight_of_bytes [1, 3, 4, 6]), Some ((set_of_bytes [4, 6])\<lparr>nsorted := 2\<rparr>))"
proof -
  let ?a = "tight_of_bytes [1, 3]"
  let ?b = "(set_of_bytes [4, 6])\<lparr>nsorted := 2\<rparr>"
  have l: "combine_loop 0 (u32 (nall ?a + nall ?b)) ?a ?b 0 0 [] = Inr (2, 2, [1, 3, 4, 6])"
    by (simp add: combine_eval set_of_bytes_def tight_of_bytes_def)
  have z: "item_size ?a \<noteq> 0" by (simp add: tight_of_bytes_def)
  have m: "u32 (nbytes ?a + nbytes ?b) \<le> MaxAllocSize"
    by (simp add: set_of_bytes_def tight_of_bytes_def u32_def MaxAllocSize_def)
  from combine_both[OF compact_tight compact_64 l z m, of 8192 ctx0 raw0]
  show ?thesis by (simp add: u32_def set_of_bytes_def tight_of_bytes_def)
qed

lemma combine_t13_t35:
  "lrtm_count_distinct_combine 8192 (Some ctx0) raw0
       (Some (tight_of_bytes [1, 3])) (Some (tight_of_bytes [3, 5]))
     = Inr (Pointer (tight_of_bytes [1, 3, 5]), Some (tight_of_bytes [3, 5]))"
proof -
  let ?a = "tight_of_bytes [1, 3]"
  let ?b = "tight_of_bytes [3, 5]"
  have l: "combine_loop 0 (u32 (nall ?a + nall ?b)) ?a ?b 0 0 [] = Inr (2, 2, [1, 3, 5])"
    by (simp add: combine_eval tight_of_bytes_def)
  have z: "item_size ?a \<noteq> 0" by (simp add: tight_of_bytes_def)
  have m: "u32 (nbytes ?a + nbytes ?b) \<le> MaxAllocSize"
    by (simp add: set_of_bytes_def tight_of_bytes_def u32_def MaxAllocSize_def)
  from combine_both[OF compact_tight compact_tight l z m, of 8192 ctx0 raw0]
  show ?thesis by (simp add: u32_def tight_of_bytes_def)
qed

lemma append_244:
  "append_all 8192 (Some ctx0) raw0 char_type None
     [Some (datum1 2), Some (datum1 4), Some (datum1 4)]
   = Inr (Some (set_of_bytes [2, 4, 4]))"
  by (simp add: append_eval)

lemma compact_244:
  "compact_set thr (set_of_bytes [2, 4, 4]) False
     = Inr ((set_of_bytes [2, 4, 4])\<lparr>nsorted := 2, nall := 2\<rparr>)"
proof -
  have q: "qsort_arg [2, 4, 4] 0 3 (Suc 0) = [2, 4, 4]"
    by (simp add: sort_eval)
  have d: "dedup_loop (Suc 0) 0 3 (Suc 0) 0 (Suc 0) [2, 4, 4] = (2, [2, 4, 4])"
    by (simp add: dedup_eval)
  have "sort_suffix (set_of_bytes [2, 4, 4]) = (set_of_bytes [2, 4, 4])\<lparr>nsorted := 2, nall := 2\<rparr>"
    by (simp add: sort_suffix_def set_of_bytes_def Let_def u32_def u32_sub_def q d)
  then show ?thesis
    by (simp add: compact_set_False compact_core_def Let_def) (simp add: set_of_bytes_def)
qed

lemma combine_fails:
  assumes "compact_set thr a False = Inr a'" and "compact_set thr b False = Inr b'"
    and "combine_loop 0 (u32 (nall a' + nall b')) a' b' 0 0 [] = Inl e"
    and "u32 (nbytes a' + nbytes b') \<le> MaxAllocSize"
  shows "lrtm_count_distinct_combine thr (Some ctx) raw (Some a) (Some b) = Inl e"
  using assms by (simp add: lrtm_count_distinct_combine_def)

lemma combine_244_46:
  "lrtm_count_distinct_combine 8192 (Some ctx0) raw0
       (Some (set_of_bytes [2, 4, 4])) (Some (set_of_bytes [4, 6])) = Inl Undefined_behaviour"
proof -
  let ?a = "(set_of_bytes [2, 4, 4])\<lparr>nsorted := 2, nall := 2\<rparr>"
  let ?b = "(set_of_bytes [4, 6])\<lparr>nsorted := 2\<rparr>"
  have l: "combine_loop 0 (u32 (nall ?a + nall ?b)) ?a ?b 0 0 [] = Inl Undefined_behaviour"
    by (simp add: combine_eval set_of_bytes_def)
  have m: "u32 (nbytes ?a + nbytes ?b) \<le> MaxAllocSize"
    by (simp add: set_of_bytes_def u32_def MaxAllocSize_def)
  from combine_fails[OF compact_244 compact_46 l m] show ?thesis .
qed

lemma count_tight:
  "lrtm_count_distinct thr True (Some (tight_of_bytes bs))
     = Inr (Some (tight_of_bytes bs), Some (int (length bs)))"
  by (simp add: lrtm_count_distinct_def compact_tight) (simp add: tight_of_bytes_def)

lemma build_array_tight:
  "build_array thr (tight_of_bytes bs)
     = Inr (tight_of_bytes bs, items_of bs 0 (length bs) 1)"
  by (simp add: build_array_def compact_tight) (simp add: tight_of_bytes_def)

lemma serial_stored_order_121:
  "lrtm_count_distinct_serial 8192 True (tight_of_bytes [1, 2, 1])
     = Inr (tight_of_bytes [1, 2, 1],
            [1, 0, 0, 0, 3, 0, 0, 0, 3, 0, 0, 0, 3, 0, 0, 0,
             99, 0, 0, 0, 0, 0, 0, 0, 16, 32, 48, 64, 80, 127, 0, 0, 1, 2, 1])"
proof -
  have ok: "eset_ok (tight_of_bytes [1, 2, 1])" "struct_ok (tight_of_bytes [1, 2, 1])"
    "nsorted (tight_of_bytes [1, 2, 1]) = nall (tight_of_bytes [1, 2, 1])"
    by (simp_all add: eset_ok_def struct_ok_def tight_of_bytes_def ctx0_def)
  have h: "struct_header (tight_of_bytes [1, 2, 1])
             = [1, 0, 0, 0, 3, 0, 0, 0, 3, 0, 0, 0, 3, 0, 0, 0,
                99, 0, 0, 0, 0, 0, 0, 0, 16, 32, 48, 64, 80, 127, 0, 0]"
    by (simp add: struct_header_def le32_def tight_of_bytes_def ctx0_def)
  have d: "take (nall (tight_of_bytes [1, 2, 1]) * item_size (tight_of_bytes [1, 2, 1]))
             (data (tight_of_bytes [1, 2, 1])) = [1, 2, 1]"
    by (simp add: tight_of_bytes_def)
  show ?thesis
    by (simp add: serial_compacted[OF ok] h d)
qed

section \<open>Claims\<close>

text \<open>
  C2 (as stated): counting an absent state gives the integer 0. The final function returns
  SQL NULL for an absent state, not 0.
\<close>

theorem C2_count_absent_is_null_not_zero:
  "lrtm_count_distinct 8192 True None = Inr (None, None)
   \<and> lrtm_count_distinct 8192 True None \<noteq> Inr (None, Some 0)"
  by (simp add: lrtm_count_distinct_def)

text \<open>
  C2 (amended): counting an absent state gives SQL NULL; counting a present, well-formed state
  runs the compaction without a request for space, which succeeds, and returns the number of
  items of the compacted set, all of them in its sorted prefix.
\<close>

theorem C2_count_absent_null_present_compacts:
  "lrtm_count_distinct thr True None = Inr (None, None)
   \<and> (eset_ok s \<longrightarrow>
        (\<exists>s'. compact_set thr s False = Inr s' \<and> nsorted s' = nall s'
           \<and> lrtm_count_distinct thr True (Some s) = Inr (Some s', Some (int (nall s')))))"
proof -
  have "\<exists>s'. compact_set thr s False = Inr s' \<and> nsorted s' = nall s'
           \<and> lrtm_count_distinct thr True (Some s) = Inr (Some s', Some (int (nall s')))"
    if ok: "eset_ok s"
  proof -
    from compact_core_ok[OF ok] obtain s' where
      "compact_core s = Inr s'" "nsorted s' = nall s'" by auto
    then show ?thesis
      by (simp add: lrtm_count_distinct_def compact_set_False)
  qed
  then show ?thesis by (simp add: lrtm_count_distinct_def)
qed

theorem C2_count_witness:
  "eset_ok set_1_3
   \<and> (\<exists>s'. compact_set 8192 set_1_3 False = Inr s' \<and> nsorted s' = nall s'
         \<and> lrtm_count_distinct 8192 True (Some set_1_3) = Inr (Some s', Some (int (nall s'))))"
proof -
  have ok: "eset_ok set_1_3" by (simp add: eset_ok_def set_1_3_def)
  with C2_count_absent_null_present_compacts[of 8192 set_1_3] show ?thesis by blast
qed

text \<open>
  C5: the array variant keeps its working pointer \<^verbatim>\<open>eset\<close> at \<^verbatim>\<open>NULL\<close> until the first
  non-null item. Called with an existing state and an array whose only item is null, it
  returns SQL NULL, so the existing state is lost; called with the same state and an array
  argument that is itself NULL, it returns the state.
\<close>

theorem C5_all_null_array_drops_state:
  "lrtm_count_distinct_elements_append thr (Some ctx) raw tinfo (Some s)
     (Some \<lparr>nitems = 1, null_bitmap = Some [0], arr_data = []\<rparr>) = Inr None
   \<and> lrtm_count_distinct_elements_append thr (Some ctx) raw tinfo (Some s) None = Inr (Some s)"
  by (simp add: lrtm_count_distinct_elements_append_def elements_loop.simps is_null_item_def)

text \<open>
  C3 (as stated): the header that the serialisation emits consists of the four \<^verbatim>\<open>uint32\<close>
  fields and nothing else. The function copies \<^verbatim>\<open>offsetof(element_set_t, data)\<close> bytes of the
  struct, and \<^verbatim>\<open>typalign\<close>, the alignment gap and the pointer \<^verbatim>\<open>aggctx\<close> lie in front of
  \<open>data\<close> as well: for the set \<open>set_c13\<close> the payload has 34 bytes where the layout of the
  specification has 18.
\<close>

theorem C3_header_is_not_four_fields_only:
  "lrtm_count_distinct_serial 8192 True set_c13
     = Inr (set_c13, [1, 0, 0, 0, 2, 0, 0, 0, 2, 0, 0, 0, 32, 0, 0, 0,
                      99, 0, 0, 0, 0, 0, 0, 0, 16, 32, 48, 64, 80, 127, 0, 0, 1, 3])
   \<and> spec_serial_layout set_c13 = [1, 0, 0, 0, 2, 0, 0, 0, 2, 0, 0, 0, 32, 0, 0, 0, 1, 3]
   \<and> lrtm_count_distinct_serial 8192 True set_c13 \<noteq> Inr (set_c13, spec_serial_layout set_c13)"
proof -
  have ok: "eset_ok set_c13" "struct_ok set_c13" "nsorted set_c13 = nall set_c13"
    by (simp_all add: eset_ok_def struct_ok_def set_c13_def)
  have h: "struct_header set_c13 = [1, 0, 0, 0, 2, 0, 0, 0, 2, 0, 0, 0, 32, 0, 0, 0,
                      99, 0, 0, 0, 0, 0, 0, 0, 16, 32, 48, 64, 80, 127, 0, 0]"
    by (simp add: struct_header_def le32_def set_c13_def)
  have l: "spec_serial_layout set_c13 = [1, 0, 0, 0, 2, 0, 0, 0, 2, 0, 0, 0, 32, 0, 0, 0, 1, 3]"
    by (simp add: spec_serial_layout_def header4_def le32_def set_c13_def)
  have d: "take (nall set_c13 * item_size set_c13) (data set_c13) = [1, 3]"
    by (simp add: set_c13_def)
  show ?thesis
    by (simp add: serial_compacted[OF ok] h l d)
qed

text \<open>
  C3 (amended): for every fully compacted, non-empty set the serialisation emits the four
  \<^verbatim>\<open>uint32\<close> fields \<open>item_size\<close>, \<open>nsorted\<close>, \<open>nall\<close>, \<open>nbytes\<close>, then the rest of the struct in
  front of \<open>data\<close> (\<open>typalign\<close>, the alignment gap, \<open>aggctx\<close>), \<open>hlen\<close> bytes in all, and
  then exactly \<open>nall * item_size\<close> bytes of items: the stored items, in the order in which
  the buffer holds them. The items of the payload are therefore in ascending order exactly
  when the stored items are. (They are not in every set: the set with the items 1, 2, 1 that
  the combine function returns for C7 is serialised with the items 1, 2, 1, see
  \<open>serial_stored_order_121\<close>.)
\<close>

theorem C3_serial_layout:
  assumes ok: "eset_ok s" and st: "struct_ok s" and c: "nsorted s = nall s" and pos: "0 < nall s"
  shows "\<exists>payload. lrtm_count_distinct_serial thr True s = Inr (s, payload)
           \<and> payload = header4 s @ [typalign s] @ pad s @ aggctx s
                          @ take (nall s * item_size s) (data s)
           \<and> length payload = hlen + nall s * item_size s
           \<and> items_of payload hlen (nall s) (item_size s)
                 = items_of (data s) 0 (nsorted s) (item_size s)
           \<and> ascending (items_of payload hlen (nall s) (item_size s))
                 = ascending (items_of (data s) 0 (nsorted s) (item_size s))"
proof -
  let ?n = "nall s * item_size s"
  let ?p = "struct_header s @ take ?n (data s)"
  have fit: "?n \<le> length (data s)" using ok by (simp add: eset_ok_def)
  have "items_of ?p (length (struct_header s) + 0) (nall s) (item_size s)
          = items_of (take ?n (data s)) 0 (nall s) (item_size s)"
    by (rule items_of_append)
  also have "\<dots> = items_of (data s) 0 (nall s) (item_size s)"
    by (rule items_of_take) simp
  finally have i: "items_of ?p hlen (nall s) (item_size s)
                     = items_of (data s) 0 (nsorted s) (item_size s)"
    by (simp add: length_struct_header[OF st] c)
  then have a: "ascending (items_of ?p hlen (nall s) (item_size s))
                  = ascending (items_of (data s) 0 (nsorted s) (item_size s))"
    by simp
  have len: "length ?p = hlen + ?n" using fit by (simp add: length_struct_header[OF st])
  have split: "?p = header4 s @ [typalign s] @ pad s @ aggctx s @ take ?n (data s)"
    by (simp add: struct_header_split)
  from serial_compacted[OF ok st c, of thr] i a len split show ?thesis by metis
qed

theorem C3_serial_layout_witness:
  "eset_ok set_c13 \<and> struct_ok set_c13 \<and> nsorted set_c13 = nall set_c13 \<and> 0 < nall set_c13
   \<and> items_of (data set_c13) 0 (nsorted set_c13) (item_size set_c13) = [[1], [3]]
   \<and> ascending [[1], [3 :: byte]]
   \<and> (\<exists>payload. lrtm_count_distinct_serial 8192 True set_c13 = Inr (set_c13, payload)
           \<and> payload = header4 set_c13 @ [typalign set_c13] @ pad set_c13 @ aggctx set_c13
                          @ take (nall set_c13 * item_size set_c13) (data set_c13)
           \<and> length payload = hlen + nall set_c13 * item_size set_c13
           \<and> items_of payload hlen (nall set_c13) (item_size set_c13)
                 = items_of (data set_c13) 0 (nsorted set_c13) (item_size set_c13)
           \<and> ascending (items_of payload hlen (nall set_c13) (item_size set_c13))
                 = ascending (items_of (data set_c13) 0 (nsorted set_c13) (item_size set_c13)))"
proof -
  have h: "eset_ok set_c13" "struct_ok set_c13" "nsorted set_c13 = nall set_c13" "0 < nall set_c13"
    by (simp_all add: eset_ok_def struct_ok_def set_c13_def)
  have i: "items_of (data set_c13) 0 (nsorted set_c13) (item_size set_c13) = [[1], [3]]"
    by (simp add: set_c13_def items_of_0 items_of_pos item_at_def)
  have a: "ascending [[1], [3 :: byte]]" by (simp add: ascending_def)
  from C3_serial_layout[OF h, of 8192] h i a show ?thesis by blast
qed

text \<open>
  C4 (as stated): a payload of the wrong length, or with \<open>nsorted\<close> different from \<open>nall\<close>, is
  rejected also in builds without assertions. Every check of the function is an \<^verbatim>\<open>Assert\<close>,
  and the length is not even read without \<^verbatim>\<open>USE_ASSERT_CHECKING\<close>: such a build makes a
  set from a payload with a trailing byte, which it ignores, and from a payload whose header
  has \<open>nsorted = 0\<close> and \<open>nall = 2\<close>.
\<close>

theorem C4_deserial_accepts_bad_payloads:
  "length payload_trailing \<noteq> hlen + hdr_field payload_trailing 2 * hdr_field payload_trailing 0
   \<and> lrtm_count_distinct_deserial False True raw0 payload_trailing
       = Inr (set_c13\<lparr>nbytes := 2\<rparr>)
   \<and> hdr_field payload_unsorted 1 \<noteq> hdr_field payload_unsorted 2
   \<and> lrtm_count_distinct_deserial False True raw0 payload_unsorted
       = Inr (set_c13\<lparr>nsorted := 0, nbytes := 2, data := [3, 1]\<rparr>)"
  by (simp add: lrtm_count_distinct_deserial_def hdr_field_def le32_nat_def hlen_def u32_def
        payload_trailing_def payload_unsorted_def set_c13_def raw0_def Let_def)

text \<open>
  C4 (amended): in a build with assertion checking, every payload that is at least as long as
  the header and whose length is not the header size plus \<open>nall * item_size\<close> (the product
  taken in \<^verbatim>\<open>uint32\<close>), or whose header has \<open>nsorted\<close> different from \<open>nall\<close>, stops the
  function at a failed assertion: no set is made of it.
\<close>

theorem C4_deserial_asserts:
  assumes len: "hlen \<le> length p"
    and bad: "length p \<noteq> hlen + u32 (hdr_field p 2 * hdr_field p 0)
              \<or> hdr_field p 1 \<noteq> hdr_field p 2"
  shows "lrtm_count_distinct_deserial True True raw p = Inl Assert_failed"
  using len bad
  by (auto simp: lrtm_count_distinct_deserial_def Let_def)

theorem C4_deserial_asserts_witness:
  "hlen \<le> length payload_trailing
   \<and> length payload_trailing
        \<noteq> hlen + u32 (hdr_field payload_trailing 2 * hdr_field payload_trailing 0)
   \<and> lrtm_count_distinct_deserial True True raw0 payload_trailing = Inl Assert_failed"
proof -
  have 1: "hlen \<le> length payload_trailing" by (simp add: hlen_def payload_trailing_def)
  have 2: "length payload_trailing \<noteq> hlen + u32 (hdr_field payload_trailing 2 * hdr_field payload_trailing 0)"
    by (simp add: hlen_def payload_trailing_def hdr_field_def le32_nat_def u32_def)
  from C4_deserial_asserts[OF 1, of raw0] 1 2 show ?thesis by blast
qed

text \<open>
  C6: for every fully compacted, non-empty set \<open>s\<close>, deserialising the serialised \<open>s\<close> gives
  a set with the same count and the same sorted sequence of items as \<open>s\<close>, in a buffer of
  exactly \<open>nall * item_size\<close> bytes; with or without assertion checking, and whatever the
  fresh struct held.
\<close>

theorem C6_roundtrip:
  assumes ok: "eset_ok s" and st: "struct_ok s" and c: "nsorted s = nall s" and pos: "0 < nall s"
  shows "\<exists>p s' xs. lrtm_count_distinct_serial thr True s = Inr (s, p)
           \<and> lrtm_count_distinct_deserial ac True raw p = Inr s'
           \<and> lrtm_count_distinct thr True (Some s) = Inr (Some s, Some (int (nall s)))
           \<and> lrtm_count_distinct thr True (Some s') = Inr (Some s', Some (int (nall s)))
           \<and> build_array thr s = Inr (s, xs)
           \<and> build_array thr s' = Inr (s', xs)
           \<and> nbytes s' = nall s * item_size s
           \<and> length (data s') = nall s * item_size s"
proof -
  let ?n = "nall s * item_size s"
  let ?p = "struct_header s @ take ?n (data s)"
  let ?s' = "s\<lparr>nbytes := ?n, data := take ?n (data s)\<rparr>"
  let ?xs = "items_of (data s) 0 (nsorted s) (item_size s)"
  have fit: "?n \<le> length (data s)" using ok by (simp add: eset_ok_def)
  have cs: "compact_set thr s False = Inr s"
    using c by (simp add: compact_set_False compact_core_compacted)
  have cs': "compact_set thr ?s' False = Inr ?s'"
    using c by (simp add: compact_set_False compact_core_compacted)
  have it: "items_of (take ?n (data s)) 0 (nsorted s) (item_size s) = ?xs"
    using c by (intro items_of_take) simp
  have 1: "lrtm_count_distinct_serial thr True s = Inr (s, ?p)"
    by (rule serial_compacted[OF ok st c])
  have 2: "lrtm_count_distinct_deserial ac True raw ?p = Inr ?s'"
    by (rule deserial_of_serial[OF ok st c pos])
  have 3: "lrtm_count_distinct thr True (Some s) = Inr (Some s, Some (int (nall s)))"
    by (simp add: lrtm_count_distinct_def cs)
  have 4: "lrtm_count_distinct thr True (Some ?s') = Inr (Some ?s', Some (int (nall s)))"
    by (simp add: lrtm_count_distinct_def cs')
  have 5: "build_array thr s = Inr (s, ?xs)"
    using fit c by (simp add: build_array_def cs)
  have 6: "build_array thr ?s' = Inr (?s', ?xs)"
    using fit c it by (simp add: build_array_def cs')
  have 7: "nbytes ?s' = ?n" "length (data ?s') = ?n" using fit by simp_all
  from 1 2 3 4 5 6 7 show ?thesis by blast
qed

theorem C6_roundtrip_witness:
  "eset_ok set_c13 \<and> struct_ok set_c13 \<and> nsorted set_c13 = nall set_c13 \<and> 0 < nall set_c13
   \<and> (\<exists>p s' xs. lrtm_count_distinct_serial 8192 True set_c13 = Inr (set_c13, p)
           \<and> lrtm_count_distinct_deserial False True raw0 p = Inr s'
           \<and> lrtm_count_distinct 8192 True (Some set_c13) = Inr (Some set_c13, Some (int (nall set_c13)))
           \<and> lrtm_count_distinct 8192 True (Some s') = Inr (Some s', Some (int (nall set_c13)))
           \<and> build_array 8192 set_c13 = Inr (set_c13, xs)
           \<and> build_array 8192 s' = Inr (s', xs)
           \<and> nbytes s' = nall set_c13 * item_size set_c13
           \<and> length (data s') = nall set_c13 * item_size set_c13)"
proof -
  have h: "eset_ok set_c13" "struct_ok set_c13" "nsorted set_c13 = nall set_c13" "0 < nall set_c13"
    by (simp_all add: eset_ok_def struct_ok_def set_c13_def)
  from C6_roundtrip[OF h, of 8192 False raw0] h show ?thesis by blast
qed

text \<open>
  C8 (as stated): with a request for space and less than 20% free after the compaction, the
  capacity is doubled when the resulting size is below the threshold, and grown by a
  factor of 1.25 otherwise. The test of the source is on the capacity grown by 1.25
  (\<^verbatim>\<open>nbytes / 0.8 < ALLOCSET_SEPARATE_THRESHOLD\<close>), not on the doubled one: a full buffer of
  4096 bytes is doubled to 8192 bytes, which is not below the threshold 8192 (and is not
  the 5120 bytes of a growth by 1.25).
\<close>

theorem C8_doubling_reaches_threshold:
  "compact_set 8192 set_full4096 True = Inr (set_full4096\<lparr>nbytes := 8192\<rparr>)
   \<and> nbytes set_full4096 = 4096
   \<and> \<not> 2 * nbytes set_full4096 < 8192
   \<and> 5 * nbytes set_full4096 div 4 = 5120"
proof -
  have c: "compact_core set_full4096 = Inr set_full4096"
    by (rule compact_core_compacted) (simp add: set_full4096_def)
  have lf: "low_free set_full4096"
    by (simp add: low_free_iff[OF set_full4096_ok]) (simp add: set_full4096_def)
  have g: "grow_set 8192 set_full4096 True = Inr (set_full4096\<lparr>nbytes := 8192\<rparr>)"
    unfolding grow_set_def Let_def thr_lt_iff repalloc_def
    using lf by (simp add: set_full4096_def u32_def length_data4096 MaxAllocSize_def)
  show ?thesis
    by (simp add: compact_set_def c g) (simp add: set_full4096_def)
qed

text \<open>
  C8 (amended): a compaction of a well-formed set asks for a capacity as follows. With a
  request for space and a free fraction below 20% after the compaction
  (\<open>5 * free < nbytes\<close>), the capacity is doubled when 1.25 times the capacity is below the
  threshold (\<open>5 * nbytes < 4 * thr\<close>), and otherwise multiplied by 1.25 and rounded down;
  without a request, or with at least 20% free, the capacity is unchanged. A capacity
  within the allocator's limit is what the compacted set comes back with; a larger one is
  refused by \<^verbatim>\<open>repalloc\<close>, and the compaction ends in that error.
\<close>

theorem C8_growth_policy:
  assumes ok: "eset_ok s" and thr: "thr \<le> 2 ^ 31" and lim: "nbytes s \<le> MaxAllocSize"
  shows "\<exists>e. compact_core s = Inr e \<and> item_size e = item_size s
           \<and> (let nb = (if need \<and> 5 * (nbytes s - nall e * item_size s) < nbytes s
                         then (if 5 * nbytes s < 4 * thr then 2 * nbytes s
                               else 5 * nbytes s div 4)
                         else nbytes s)
                in compact_set thr s need
                     = (if nb \<le> MaxAllocSize then Inr (e\<lparr>nbytes := nb\<rparr>)
                        else Inl alloc_refused))"
proof -
  from compact_core_ok[OF ok] obtain e where
    e: "compact_core s = Inr e" "eset_ok e" "same_header s e" by auto
  then have h: "nbytes e = nbytes s" "item_size e = item_size s" by (simp_all add: same_header_def)
  have lim': "nbytes e \<le> MaxAllocSize" using lim h by simp
  have cw: "capacity_wanted thr e need =
              (if need \<and> 5 * (nbytes s - nall e * item_size s) < nbytes s
               then (if 5 * nbytes s < 4 * thr then 2 * nbytes s else 5 * nbytes s div 4)
               else nbytes s)"
    by (simp add: capacity_wanted_def h)
  have "compact_set thr s need = grow_set thr e need" using e(1) by (simp add: compact_set_def)
  also have "\<dots> = (if capacity_wanted thr e need \<le> MaxAllocSize
                     then Inr (e\<lparr>nbytes := capacity_wanted thr e need\<rparr>)
                     else Inl alloc_refused)"
    unfolding grow_set_eq[OF e(2) thr lim'] by (simp add: not_less)
  finally have "compact_set thr s need =
     (let nb = (if need \<and> 5 * (nbytes s - nall e * item_size s) < nbytes s
                then (if 5 * nbytes s < 4 * thr then 2 * nbytes s else 5 * nbytes s div 4)
                else nbytes s)
      in if nb \<le> MaxAllocSize then Inr (e\<lparr>nbytes := nb\<rparr>) else Inl alloc_refused)"
    unfolding cw Let_def .
  then show ?thesis using e(1) h(2) by (intro exI[of _ e]) (simp only: Let_def simp_thms)
qed

theorem C8_growth_policy_witness:
  "eset_ok set_full4096 \<and> (8192::nat) \<le> 2 ^ 31 \<and> nbytes set_full4096 \<le> MaxAllocSize
   \<and> (\<exists>e. compact_core set_full4096 = Inr e \<and> item_size e = item_size set_full4096
           \<and> (let nb = (if True \<and> 5 * (nbytes set_full4096 - nall e * item_size set_full4096)
                                    < nbytes set_full4096
                         then (if 5 * nbytes set_full4096 < 4 * 8192 then 2 * nbytes set_full4096
                               else 5 * nbytes set_full4096 div 4)
                         else nbytes set_full4096)
                in compact_set 8192 set_full4096 True
                     = (if nb \<le> MaxAllocSize then Inr (e\<lparr>nbytes := nb\<rparr>)
                        else Inl alloc_refused)))"
proof -
  have 1: "(8192::nat) \<le> 2 ^ 31" by simp
  have 2: "nbytes set_full4096 \<le> MaxAllocSize" by (simp add: set_full4096_def MaxAllocSize_def)
  from C8_growth_policy[OF set_full4096_ok 1 2, of True] set_full4096_ok 1 2
  show ?thesis by blast
qed

text \<open>
  C10: for every set of by-value items (of 1, 2, 4 or 8 bytes) in a buffer as \<^verbatim>\<open>init_set\<close>
  and the growth policy make it, the compaction with a request for space either leaves room
  for one more item, \<open>item_size * (nall + 1) \<le> nbytes\<close>, or ends in the error of the
  allocator, which it does exactly when the capacity it asks for is above the allocator's
  limit. So \<^verbatim>\<open>add_element\<close>, which calls it when the buffer is full, either stores the new
  item inside the allocation or, when the buffer is full and cannot grow, ends in that
  error before it stores anything; it never ends in \<open>Undefined_behaviour\<close>. The threshold
  is at least 40 bytes (it is 8192).
\<close>

theorem C10_append_has_room:
  assumes inv: "eset_inv s" and thr: "40 \<le> thr" "thr \<le> 2 ^ 31"
  shows "\<exists>e. compact_core s = Inr e
           \<and> (if capacity_wanted thr e True \<le> MaxAllocSize
               then \<exists>s'. compact_set thr s True = Inr s'
                      \<and> nbytes s' = capacity_wanted thr e True
                      \<and> item_size s' * (nall s' + 1) \<le> nbytes s'
               else compact_set thr s True = Inl alloc_refused)
           \<and> (item_size s \<le> length val \<longrightarrow>
                (if nbytes s < item_size s * (nall s + 1)
                    \<and> MaxAllocSize < capacity_wanted thr e True
                 then add_element thr s val = Inl alloc_refused
                 else \<exists>s''. add_element thr s val = Inr s''
                        \<and> item_size s'' * nall s'' \<le> length (data s'')
                        \<and> length (data s'') \<le> nbytes s''))"
proof -
  have ok: "eset_ok s" and w: "by_value_width (item_size s)" and pos: "0 < nbytes s"
    and lim: "nbytes s \<le> MaxAllocSize"
    and shape: "item_size s dvd nbytes s \<or> 5 * item_size s \<le> nbytes s"
    using inv by (simp_all add: eset_inv_def)
  from compact_core_ok[OF ok] obtain e where
    e: "compact_core s = Inr e" "eset_ok e" "same_header s e" by auto
  then have h: "nbytes e = nbytes s" "item_size e = item_size s" by (simp_all add: same_header_def)
  define cw where "cw = capacity_wanted thr e True"
  define s' where "s' = e\<lparr>nbytes := cw\<rparr>"
  have lim_e: "nbytes e \<le> MaxAllocSize" using lim h by simp
  have cs: "compact_set thr s True = (if MaxAllocSize < cw then Inl alloc_refused else Inr s')"
    using grow_set_eq[OF e(2) thr(2) lim_e, of True] e(1)
    by (simp add: compact_set_def cw_def s'_def)
  have room_e: "nall e * item_size e + item_size e \<le> cw"
    unfolding cw_def using w pos shape h
    by (intro room_after_grow[OF e(2) _ _ _ thr(1)]) simp_all
  have room: "item_size s' * (nall s' + 1) \<le> nbytes s'"
    using room_e by (simp add: s'_def algebra_simps)
  have bnd: "nbytes e \<le> cw" unfolding cw_def using capacity_wanted_bounds by blast
  have A: "if cw \<le> MaxAllocSize
           then \<exists>t. compact_set thr s True = Inr t \<and> nbytes t = cw
                  \<and> item_size t * (nall t + 1) \<le> nbytes t
           else compact_set thr s True = Inl alloc_refused"
  proof (cases "cw \<le> MaxAllocSize")
    case True
    then have "compact_set thr s True = Inr s'" by (simp add: cs)
    moreover have "nbytes s' = cw" by (simp add: s'_def)
    ultimately show ?thesis using True room by auto
  next
    case False
    then show ?thesis by (simp add: cs)
  qed
  have B: "if nbytes s < item_size s * (nall s + 1) \<and> MaxAllocSize < cw
           then add_element thr s val = Inl alloc_refused
           else \<exists>s''. add_element thr s val = Inr s''
                  \<and> item_size s'' * nall s'' \<le> length (data s'')
                  \<and> length (data s'') \<le> nbytes s''"
    if len: "item_size s \<le> length val"
  proof -
    have lim': "nbytes s \<le> 1073741823" using lim by (simp add: MaxAllocSize_def)
    have sz8: "item_size s \<le> 8" using by_value_width_le[OF w] by simp
    have na: "nall s \<le> nall s * item_size s" using by_value_width_le[OF w] by simp
    have fits: "nall s * item_size s \<le> nbytes s" using ok by (simp add: eset_ok_def)
    have u1: "u32 (nall s + 1) = nall s + 1"
      using na fits lim' by (intro u32_id_num) linarith
    have "item_size s * (nall s + 1) \<le> nbytes s + 8" using fits sz8 by (simp add: algebra_simps)
    then have u2: "u32 (item_size s * (nall s + 1)) = item_size s * (nall s + 1)"
      using lim' by (intro u32_id_num) linarith
    show ?thesis
    proof (cases "nbytes s < item_size s * (nall s + 1) \<and> MaxAllocSize < cw")
      case True
      then have pre: "(if nbytes s < u32 (item_size s * u32 (nall s + 1))
            then compact_set thr s True else Inr s) = Inl alloc_refused"
        by (simp only: u1 u2 cs if_True)
      have "add_element thr s val = Inl alloc_refused"
        by (simp only: add_element_def pre sum.case)
      then show ?thesis using True by simp
    next
      case False
      define t where "t = (if nbytes s < item_size s * (nall s + 1) then s' else s)"
      have pre: "(if nbytes s < u32 (item_size s * u32 (nall s + 1))
            then compact_set thr s True else Inr s) = Inr t"
        using False by (auto simp only: u1 u2 cs t_def not_less split: if_splits)
      have small: "nbytes s < item_size s * (nall s + 1) \<Longrightarrow> cw \<le> 1073741823"
        using False by (simp add: MaxAllocSize_def)
      have t_ok: "item_size t = item_size s" "nall t * item_size t \<le> length (data t)"
        "length (data t) \<le> nbytes t" "nbytes t \<le> 1073741823"
        using ok e(2) h lim' bnd small by (auto simp: t_def s'_def eset_ok_def)
      have t_room: "item_size t * nall t + item_size t \<le> nbytes t"
      proof (cases "nbytes s < item_size s * (nall s + 1)")
        case True
        then have "t = s'" by (simp add: t_def)
        then show ?thesis using room by (simp add: algebra_simps)
      next
        case False
        then have "item_size s * (nall s + 1) \<le> nbytes s" by simp
        moreover have "t = s" using False by (simp add: t_def)
        ultimately show ?thesis by (simp add: algebra_simps)
      qed
      have tm: "item_size t * nall t = nall t * item_size t" by (rule mult.commute)
      have u3: "u32 (item_size t * nall t) = item_size t * nall t"
        using t_ok(2,3,4) unfolding tm by (intro u32_id_num) linarith
      have u4: "u32 (nall t + 1) = nall t + 1"
      proof -
        have "nall t \<le> nall t * item_size t" using by_value_width_le[OF w] t_ok(1) by simp
        then show ?thesis using t_ok(2,3,4) by (intro u32_id_num) linarith
      qed
      let ?d = "memcpy (data t) (item_size t * nall t) (take (item_size t) val)"
      have lenm: "length ?d = max (length (data t)) (item_size t * nall t + item_size t)"
        using t_ok len by (simp add: memcpy_def mult.commute min_def max_def)
      have c1: "\<not> (length val < item_size t \<or> nbytes t < item_size t * nall t + item_size t
                  \<or> length (data t) < item_size t * nall t)"
        using len t_ok t_room by (simp add: mult.commute)
      have res: "add_element thr s val = Inr (t\<lparr>data := ?d, nall := nall t + 1\<rparr>)"
        by (simp only: add_element_def pre sum.case Let_def u3 u4 c1 if_False)
      have "item_size t * (nall t + 1) \<le> length ?d" by (simp add: lenm)
      moreover have "length ?d \<le> nbytes t" using t_ok(3) t_room by (simp add: lenm)
      ultimately have ex: "\<exists>s''. add_element thr s val = Inr s''
                  \<and> item_size s'' * nall s'' \<le> length (data s'')
                  \<and> length (data s'') \<le> nbytes s''"
        by (simp add: res)
      show ?thesis unfolding if_not_P[OF False] by (rule ex)
    qed
  qed
  show ?thesis
  proof (intro exI[of _ e] conjI impI)
    show "compact_core s = Inr e" by (rule e(1))
  next
    show "if capacity_wanted thr e True \<le> MaxAllocSize
          then \<exists>s'. compact_set thr s True = Inr s'
                 \<and> nbytes s' = capacity_wanted thr e True
                 \<and> item_size s' * (nall s' + 1) \<le> nbytes s'
          else compact_set thr s True = Inl alloc_refused"
      by (rule A[unfolded cw_def])
  next
    assume "item_size s \<le> length val"
    then show "if nbytes s < item_size s * (nall s + 1)
                    \<and> MaxAllocSize < capacity_wanted thr e True
               then add_element thr s val = Inl alloc_refused
               else \<exists>s''. add_element thr s val = Inr s''
                      \<and> item_size s'' * nall s'' \<le> length (data s'')
                      \<and> length (data s'') \<le> nbytes s''"
      by (rule B[unfolded cw_def])
  qed
qed

theorem C10_append_has_room_witness:
  "eset_inv set_full4096 \<and> (40::nat) \<le> 8192 \<and> (8192::nat) \<le> 2 ^ 31
   \<and> compact_core set_full4096 = Inr set_full4096
   \<and> capacity_wanted 8192 set_full4096 True = 8192
   \<and> (\<exists>s'. compact_set 8192 set_full4096 True = Inr s'
          \<and> nbytes s' = 8192 \<and> item_size s' * (nall s' + 1) \<le> nbytes s')
   \<and> item_size set_full4096 \<le> length [1, 2, 3, 4, 5, 6, 7, 8 :: byte]
   \<and> nbytes set_full4096 < item_size set_full4096 * (nall set_full4096 + 1)
   \<and> (\<exists>s''. add_element 8192 set_full4096 [1, 2, 3, 4, 5, 6, 7, 8] = Inr s''
          \<and> item_size s'' * nall s'' \<le> length (data s'')
          \<and> length (data s'') \<le> nbytes s'')"
proof -
  have 1: "eset_inv set_full4096"
    using set_full4096_ok
    by (simp add: eset_inv_def by_value_width_def MaxAllocSize_def) (simp add: set_full4096_def)
  have 2: "(40::nat) \<le> 8192" "(8192::nat) \<le> 2 ^ 31" by simp_all
  have 3: "item_size set_full4096 \<le> length [1, 2, 3, 4, 5, 6, 7, 8 :: byte]"
    by (simp add: set_full4096_def)
  have 4: "compact_core set_full4096 = Inr set_full4096"
    by (rule compact_core_compacted) (simp add: set_full4096_def)
  have 5: "capacity_wanted 8192 set_full4096 True = 8192"
    by (simp add: capacity_wanted_def set_full4096_def)
  have 6: "nbytes set_full4096 < item_size set_full4096 * (nall set_full4096 + 1)"
    by (simp add: set_full4096_def)
  have 7: "(8192::nat) \<le> MaxAllocSize" by (simp add: MaxAllocSize_def)
  from C10_append_has_room[OF 1 2, of "[1, 2, 3, 4, 5, 6, 7, 8]"] 
  obtain e where e: "compact_core set_full4096 = Inr e"
    and A: "if capacity_wanted 8192 e True \<le> MaxAllocSize
               then \<exists>s'. compact_set 8192 set_full4096 True = Inr s'
                      \<and> nbytes s' = capacity_wanted 8192 e True
                      \<and> item_size s' * (nall s' + 1) \<le> nbytes s'
               else compact_set 8192 set_full4096 True = Inl alloc_refused"
    and B: "item_size set_full4096 \<le> length [1, 2, 3, 4, 5, 6, 7, 8 :: byte] \<longrightarrow>
                (if nbytes set_full4096 < item_size set_full4096 * (nall set_full4096 + 1)
                    \<and> MaxAllocSize < capacity_wanted 8192 e True
                 then add_element 8192 set_full4096 [1, 2, 3, 4, 5, 6, 7, 8] = Inl alloc_refused
                 else \<exists>s''. add_element 8192 set_full4096 [1, 2, 3, 4, 5, 6, 7, 8] = Inr s''
                        \<and> item_size s'' * nall s'' \<le> length (data s'')
                        \<and> length (data s'') \<le> nbytes s'')"
    by blast
  have ee: "e = set_full4096" using e 4 by simp
  have A': "\<exists>s'. compact_set 8192 set_full4096 True = Inr s'
          \<and> nbytes s' = 8192 \<and> item_size s' * (nall s' + 1) \<le> nbytes s'"
    using A unfolding ee 5 using 7 by simp
  have B': "\<exists>s''. add_element 8192 set_full4096 [1, 2, 3, 4, 5, 6, 7, 8] = Inr s''
          \<and> item_size s'' * nall s'' \<le> length (data s'')
          \<and> length (data s'') \<le> nbytes s''"
    using B 3 unfolding ee 5 using 7 by simp
  show ?thesis
    by (intro conjI 1 2 3 4 5 6 A' B')
qed

text \<open>
  C1: combining gives the distinct union of what was appended to either input. The merge
  loop of the combine function bounds its two read pointers by the capacities \<open>nbytes\<close>,
  not by \<open>nall * item_size\<close>: with spare capacity behind the items it also reads what lies
  there. With 2, 4, 4, 4 appended to one set and 4, 6 to the other, the four rounds of the loop
  take 2, 4 and the two stale copies of 4 that the compaction left behind the items of the
  first set: the result has the two items 2 and 4, and 6 is lost. With 2, 4, 4 and 4, 6 (the
  scenario of the specification) the fourth round reads a byte that was never written.
\<close>

theorem C1_combine_drops_an_element:
  "append_all 8192 (Some ctx0) raw0 char_type None
       [Some (datum1 2), Some (datum1 4), Some (datum1 4), Some (datum1 4)]
     = Inr (Some (set_of_bytes [2, 4, 4, 4]))
   \<and> append_all 8192 (Some ctx0) raw0 char_type None [Some (datum1 4), Some (datum1 6)]
     = Inr (Some (set_of_bytes [4, 6]))
   \<and> lrtm_count_distinct_combine 8192 (Some ctx0) raw0
         (Some (set_of_bytes [2, 4, 4, 4])) (Some (set_of_bytes [4, 6]))
     = Inr (Pointer (tight_of_bytes [2, 4]), Some ((set_of_bytes [4, 6])\<lparr>nsorted := 2\<rparr>))
   \<and> lrtm_count_distinct 8192 True (Some (tight_of_bytes [2, 4]))
     = Inr (Some (tight_of_bytes [2, 4]), Some 2)
   \<and> build_array 8192 (tight_of_bytes [2, 4]) = Inr (tight_of_bytes [2, 4], [[2], [4]])
   \<and> append_all 8192 (Some ctx0) raw0 char_type None
         [Some (datum1 2), Some (datum1 4), Some (datum1 4)]
     = Inr (Some (set_of_bytes [2, 4, 4]))
   \<and> lrtm_count_distinct_combine 8192 (Some ctx0) raw0
         (Some (set_of_bytes [2, 4, 4])) (Some (set_of_bytes [4, 6]))
     = Inl Undefined_behaviour"
proof -
  have c: "lrtm_count_distinct 8192 True (Some (tight_of_bytes [2, 4]))
             = Inr (Some (tight_of_bytes [2, 4]), Some 2)"
    by (simp add: count_tight)
  have b: "build_array 8192 (tight_of_bytes [2, 4]) = Inr (tight_of_bytes [2, 4], [[2], [4]])"
    by (simp add: build_array_tight items_of_0 items_of_pos item_at_def)
  show ?thesis
    by (intro conjI append_2444 append_46 append_244 combine_2444_46 combine_244_46 c b)
qed

text \<open>
  C7: after every public operation the sorted prefix is strictly increasing. The same defect
  of the combine function breaks it: with 1, 1, 1, 2 appended to one set and 3 to the other,
  the result has the prefix 1, 2, 1 (and \<open>nsorted = 3\<close>).
\<close>

theorem C7_combine_result_not_ascending:
  "append_all 8192 (Some ctx0) raw0 char_type None
       [Some (datum1 1), Some (datum1 1), Some (datum1 1), Some (datum1 2)]
     = Inr (Some (set_of_bytes [1, 1, 1, 2]))
   \<and> append_all 8192 (Some ctx0) raw0 char_type None [Some (datum1 3)]
     = Inr (Some (set_of_bytes [3]))
   \<and> lrtm_count_distinct_combine 8192 (Some ctx0) raw0
         (Some (set_of_bytes [1, 1, 1, 2])) (Some (set_of_bytes [3]))
     = Inr (Pointer (tight_of_bytes [1, 2, 1]), Some ((set_of_bytes [3])\<lparr>nsorted := 1\<rparr>))
   \<and> nsorted (tight_of_bytes [1, 2, 1]) = 3
   \<and> items_of (data (tight_of_bytes [1, 2, 1])) 0 (nsorted (tight_of_bytes [1, 2, 1]))
         (item_size (tight_of_bytes [1, 2, 1])) = [[1], [2], [1]]
   \<and> \<not> ascending (items_of (data (tight_of_bytes [1, 2, 1])) 0
           (nsorted (tight_of_bytes [1, 2, 1])) (item_size (tight_of_bytes [1, 2, 1])))"
proof -
  have i: "items_of (data (tight_of_bytes [1, 2, 1])) 0 (nsorted (tight_of_bytes [1, 2, 1]))
         (item_size (tight_of_bytes [1, 2, 1])) = [[1], [2], [1]]"
    by (simp add: tight_of_bytes_def items_of_0 items_of_pos item_at_def)
  have n: "nsorted (tight_of_bytes [1, 2, 1]) = 3" by (simp add: tight_of_bytes_def)
  have a: "\<not> ascending [[1], [2], [1 :: byte]]" by (simp add: ascending_def)
  have a': "\<not> ascending (items_of (data (tight_of_bytes [1, 2, 1])) 0
           (nsorted (tight_of_bytes [1, 2, 1])) (item_size (tight_of_bytes [1, 2, 1])))"
    unfolding i by (rule a)
  show ?thesis
    by (intro conjI append_1112 append_3 combine_1112_3 n i a')
qed

text \<open>
  C9 (as stated): combining never changes the second argument. The function compacts both
  arguments in place first: a second argument with an unsorted suffix comes back with
  \<open>nsorted\<close> changed from 0 to 2 and its items reordered.
\<close>

theorem C9_combine_compacts_second_argument:
  "append_all 8192 (Some ctx0) raw0 char_type None [Some (datum1 6), Some (datum1 4)]
     = Inr (Some (set_of_bytes [6, 4]))
   \<and> lrtm_count_distinct_combine 8192 (Some ctx0) raw0
         (Some (tight_of_bytes [1, 3])) (Some (set_of_bytes [6, 4]))
     = Inr (Pointer (tight_of_bytes [1, 3, 4, 6]), Some ((set_of_bytes [4, 6])\<lparr>nsorted := 2\<rparr>))
   \<and> nsorted (set_of_bytes [6, 4]) = 0
   \<and> nsorted ((set_of_bytes [4, 6])\<lparr>nsorted := 2\<rparr>) = 2
   \<and> data (set_of_bytes [6, 4]) = [6, 4]
   \<and> data ((set_of_bytes [4, 6])\<lparr>nsorted := 2\<rparr>) = [4, 6]"
proof -
  have f: "nsorted (set_of_bytes [6, 4]) = 0"
    "nsorted ((set_of_bytes [4, 6])\<lparr>nsorted := 2\<rparr>) = 2"
    "data (set_of_bytes [6, 4]) = [6, 4]"
    "data ((set_of_bytes [4, 6])\<lparr>nsorted := 2\<rparr>) = [4, 6]"
    by (simp_all add: set_of_bytes_def)
  show ?thesis
    by (intro conjI append_64 combine_t13_64 f)
qed

text \<open>
  C9 (amended): when combining two present states returns and the second argument was fully
  compacted, the second argument is unchanged; the result is the first argument's struct,
  compacted, with its buffer, capacity and counters replaced.
\<close>

theorem C9_compacted_second_argument_unchanged:
  assumes run: "lrtm_count_distinct_combine thr ctx raw (Some a) (Some b) = Inr (r, b')"
    and c: "nsorted b = nall b"
  shows "b' = Some b
         \<and> (\<exists>a' out. compact_set thr a False = Inr a'
               \<and> r = Pointer (a'\<lparr>data := out, nbytes := u32 (length out),
                               nall := u32 (length out) div item_size a',
                               nsorted := u32 (length out) div item_size a'\<rparr>))"
proof -
  have cb: "compact_set thr b False = Inr b"
    using c by (simp add: compact_set_False compact_core_compacted)
  from run show ?thesis
    by (auto simp: lrtm_count_distinct_combine_def cb
             split: option.splits sum.splits prod.splits if_splits)
qed

theorem C9_compacted_second_argument_unchanged_witness:
  "lrtm_count_distinct_combine 8192 (Some ctx0) raw0
       (Some (tight_of_bytes [1, 3])) (Some (tight_of_bytes [3, 5]))
     = Inr (Pointer (tight_of_bytes [1, 3, 5]), Some (tight_of_bytes [3, 5]))
   \<and> nsorted (tight_of_bytes [3, 5]) = nall (tight_of_bytes [3, 5])
   \<and> Some (tight_of_bytes [3, 5]) = Some (tight_of_bytes [3, 5])
   \<and> (\<exists>a' out. compact_set 8192 (tight_of_bytes [1, 3]) False = Inr a'
         \<and> Pointer (tight_of_bytes [1, 3, 5])
             = Pointer (a'\<lparr>data := out, nbytes := u32 (length out),
                          nall := u32 (length out) div item_size a',
                          nsorted := u32 (length out) div item_size a'\<rparr>))"
proof -
  have c: "nsorted (tight_of_bytes [3, 5]) = nall (tight_of_bytes [3, 5])"
    by (simp add: tight_of_bytes_def)
  from C9_compacted_second_argument_unchanged[OF combine_t13_t35 c] combine_t13_t35 c
  show ?thesis by blast
qed

end
